theory Spec2Isabelle
  imports Main
begin

section \<open>Strings\<close>

text \<open>
  A JavaScript string is the list of its UTF-16 code units, and the model covers the
  strings whose code units are all below 256 (the Latin-1 range), one \<^typ>\<open>char\<close> per
  code unit. In this range the white space of \<open>\s\<close> and of \<open>String.prototype.trim\<close>
  is TAB, LF, VT, FF, CR, SPACE and NO-BREAK SPACE (U+00A0); \<open>toLowerCase\<close> maps
  \<open>A-Z\<close> and U+00C0 to U+00DE, the multiplication sign U+00D7 apart, to the code unit 32
  above, and nothing else; \<open>\d\<close> is \<open>[0-9]\<close>. Strings with a code unit of 256 or more
  are outside the model.
\<close>

definition isDigit :: "char \<Rightarrow> bool" where
  "isDigit c = (let n = (of_char c :: nat) in 48 \<le> n \<and> n \<le> 57)"

definition isSpace :: "char \<Rightarrow> bool" where
  "isSpace c = (let n = (of_char c :: nat) in (9 \<le> n \<and> n \<le> 13) \<or> n = 32 \<or> n = 160)"

definition lowerChar :: "char \<Rightarrow> char" where
  "lowerChar c =
     (let n = (of_char c :: nat) in
      if (65 \<le> n \<and> n \<le> 90) \<or> (192 \<le> n \<and> n \<le> 222 \<and> n \<noteq> 215)
      then char_of (n + 32) else c)"

definition toLowerCase :: "string \<Rightarrow> string" where
  "toLowerCase s = map lowerChar s"

definition trim :: "string \<Rightarrow> string" where
  "trim s = rev (dropWhile isSpace (rev (dropWhile isSpace s)))"

text \<open>\<open>s.includes('@')\<close>\<close>

definition includesAt :: "string \<Rightarrow> bool" where
  "includesAt s = (CHR ''@'' \<in> set s)"

text \<open>\<open>s.split(c)\<close> for a one-character separator: the pieces between the separators,
  empty pieces kept; the empty string splits into one empty piece.\<close>

fun split :: "char \<Rightarrow> string \<Rightarrow> string list" where
  "split c [] = [[]]"
| "split c (x # xs) =
     (if x = c then [] # split c xs
      else (case split c xs of [] \<Rightarrow> [[x]] | p # ps \<Rightarrow> (x # p) # ps))"

text \<open>\<open>s.split(/\s+/).filter(w => w)\<close>: the maximal runs of non-space characters.\<close>

fun splitWords :: "string \<Rightarrow> string \<Rightarrow> string list" where
  "splitWords cur [] = (if cur = [] then [] else [cur])"
| "splitWords cur (x # xs) =
     (if isSpace x then (if cur = [] then splitWords [] xs else cur # splitWords [] xs)
      else splitWords (cur @ [x]) xs)"

section \<open>Numbers\<close>

text \<open>
  A JavaScript number as the range parser meets it: a non-negative integral double, given
  by its value, \<open>Infinity\<close> or \<open>NaN\<close>. \<open>Number(s)\<close> is modelled on the strings the
  parser passes to it, which are non-empty digit strings and \<open>"*"\<close>: a digit string gives
  the double nearest to its decimal value (ties to the even significand, as the engine
  rounds), which is the value itself below \<open>2^53\<close> and \<open>Infinity\<close> from \<open>2^1024 - 2^970\<close>
  on; \<open>"*"\<close> gives \<open>NaN\<close>.
\<close>

datatype jsnum = Num nat | Infinity | NaN

definition digitsValue :: "string \<Rightarrow> nat" where
  "digitsValue s = foldl (\<lambda>acc c. 10 * acc + (of_char c - 48)) 0 s"

definition isDigits :: "string \<Rightarrow> bool" where
  "isDigits s = (s \<noteq> [] \<and> list_all isDigit s)"

text \<open>The number of binary digits of a natural number.\<close>

fun bitLength :: "nat \<Rightarrow> nat" where
  "bitLength n = (if n = 0 then 0 else Suc (bitLength (n div 2)))"

declare bitLength.simps [simp del]

text \<open>
  Rounding to a significand of 53 binary digits. A value of at most 53 binary digits is a
  double. Otherwise \<open>e\<close> is the number of digits dropped, \<open>q\<close> the digits kept and \<open>r\<close>
  the digits dropped; the result goes up when \<open>r\<close> is above half of \<open>2^e\<close>, or at the
  half when \<open>q\<close> is odd; a result of more than 1024 binary digits is \<open>Infinity\<close>.
\<close>

definition roundToDouble :: "nat \<Rightarrow> jsnum" where
  "roundToDouble n =
     (if bitLength n \<le> 53 then Num n
      else
        (let e = bitLength n - 53;
             q = n div 2 ^ e;
             r = n mod 2 ^ e;
             q1 = (if 2 ^ e < 2 * r \<or> (2 * r = 2 ^ e \<and> odd q) then q + 1 else q);
             v = q1 * 2 ^ e
         in if bitLength v \<le> 1024 then Num v else Infinity))"

definition Number :: "string \<Rightarrow> jsnum" where
  "Number s = (if isDigits s then roundToDouble (digitsValue s) else NaN)"

text \<open>
  \<open>Array.prototype.sort(comparefn)\<close> is a stable sort; a comparator result that is
  \<open>NaN\<close> counts as \<open>+0\<close> (ECMAScript SortCompare). \<open>compareNumbers\<close> is the comparator
  \<open>(a, b) => a - b\<close> read that way, up to the size of the result: the difference of two
  doubles has the sign of the exact difference, \<open>Infinity - Infinity\<close> is \<open>NaN\<close>, and so
  is every difference with \<open>NaN\<close>. The comparator of the colon grammar first tests
  \<open>a === '*'\<close> and \<open>b === '*'\<close>: its arguments are numbers by then, the strict
  comparison with a string is false, and \<open>a - b\<close> is what it returns.
\<close>

fun compareNumbers :: "jsnum \<Rightarrow> jsnum \<Rightarrow> int" where
  "compareNumbers (Num a) (Num b) = int a - int b"
| "compareNumbers (Num a) Infinity = - 1"
| "compareNumbers Infinity (Num b) = 1"
| "compareNumbers _ _ = 0"

fun insertSorted :: "jsnum \<Rightarrow> jsnum list \<Rightarrow> jsnum list" where
  "insertSorted x [] = [x]"
| "insertSorted x (y # ys) =
     (if compareNumbers x y \<le> 0 then x # y # ys else y # insertSorted x ys)"

definition jsSort :: "jsnum list \<Rightarrow> jsnum list" where
  "jsSort xs = foldr insertSorted xs []"

text \<open>\<open>a === b\<close> on numbers: \<open>NaN\<close> equals nothing.\<close>

fun strictEq :: "jsnum \<Rightarrow> jsnum \<Rightarrow> bool" where
  "strictEq (Num a) (Num b) = (a = b)"
| "strictEq Infinity Infinity = True"
| "strictEq _ _ = False"

fun isNaN :: "jsnum \<Rightarrow> bool" where
  "isNaN NaN = True"
| "isNaN _ = False"

section \<open>The range parser \<open>uidRangeStringToQuery\<close>\<close>

text \<open>
  The result is a number (an equality constraint), \<open>{$in: [...]}\<close> or
  \<open>{$gte: lo}\<close> with an optional \<open>$lte\<close>; \<open>None\<close> is \<open>undefined\<close>.
\<close>

datatype uidQuery =
    UidEq jsnum
  | UidIn "jsnum list"
  | UidRange jsnum "jsnum option"

text \<open>The three regular expressions, each anchored at both ends.\<close>

definition matchesSingle :: "string \<Rightarrow> bool" where
  "matchesSingle s = isDigits s"

definition matchesList :: "string \<Rightarrow> bool" where
  "matchesList s = list_all isDigits (split CHR '','' s)"

definition matchesPair :: "string \<Rightarrow> bool" where
  "matchesPair s =
     (case split CHR '':'' s of
        [a, b] \<Rightarrow> isDigits a \<and> (isDigits b \<or> b = ''*'')
      | _ \<Rightarrow> False)"

definition uidRangeStringToQuery :: "string option \<Rightarrow> uidQuery option" where
  "uidRangeStringToQuery uidRange =
     (case uidRange of
        None \<Rightarrow> None
      | Some s \<Rightarrow>
          if s = [] then None
          else if matchesSingle s then Some (UidEq (Number s))
          else if matchesList s then
            Some (UidIn (jsSort (map Number (split CHR '','' s))))
          else if matchesPair s then
            (let parts = jsSort (map Number (split CHR '':'' s)) in
             if strictEq (parts ! 0) (parts ! 1) then Some (UidEq (parts ! 0))
             else if \<not> isNaN (parts ! 1) then Some (UidRange (parts ! 0) (Some (parts ! 1)))
             else Some (UidRange (parts ! 0) None))
          else None)"

section \<open>Stored values\<close>

text \<open>
  The values a stored document can hold, as the extractor sees them: \<open>undefined\<close> (a
  missing position), \<open>null\<close>, booleans, numbers, strings, arrays and plain objects. A
  number is given by the string that \<open>Number.prototype.toString\<close> prints for it, such as
  \<open>7\<close>, \<open>-1.5\<close>, \<open>1e+21\<close>, \<open>Infinity\<close> or \<open>NaN\<close>; both zeros print as \<open>0\<close>. A plain
  object is the list of its own properties, which are data properties: a stored document
  holds no function. Other BSON values (dates, binary data, object ids) are not modelled.
\<close>

datatype jsval =
    JUndefined
  | JNull
  | JBool bool
  | JNum string
  | JStr string
  | JArr "jsval list"
  | JObj "(string \<times> jsval) list"

datatype error = InternalDatabaseError | UserNotFound | TypeError

fun truthy :: "jsval \<Rightarrow> bool" where
  "truthy JUndefined = False"
| "truthy JNull = False"
| "truthy (JBool b) = b"
| "truthy (JNum n) = (n \<noteq> ''0'' \<and> n \<noteq> ''NaN'')"
| "truthy (JStr s) = (s \<noteq> [])"
| "truthy (JArr _) = True"
| "truthy (JObj _) = True"

definition digitChar :: "nat \<Rightarrow> char" where
  "digitChar n = char_of (48 + n)"

fun showNat :: "nat \<Rightarrow> string" where
  "showNat n = (if n < 10 then [digitChar n] else showNat (n div 10) @ [digitChar (n mod 10)])"

declare showNat.simps [simp del]

text \<open>Sequencing of calls that can throw.\<close>

definition bindE :: "error + 'a \<Rightarrow> ('a \<Rightarrow> error + 'b) \<Rightarrow> error + 'b" where
  "bindE r f = (case r of Inl e \<Rightarrow> Inl e | Inr v \<Rightarrow> f v)"

text \<open>\<open>xs.join(sep)\<close> on strings.\<close>

fun joinWith :: "string \<Rightarrow> string list \<Rightarrow> string" where
  "joinWith sep [] = []"
| "joinWith sep [x] = x"
| "joinWith sep (x # y # ys) = x @ sep @ joinWith sep (y # ys)"

text \<open>
  The conversion of a value to a string, as \<open>v + '@'\<close>, \<open>v.toString()\<close> and the
  elements of a joined array undergo it. A plain object converts through its
  \<open>toString\<close> property: without an own property of that name this is
  \<open>Object.prototype.toString\<close>; an own property of that name is data, cannot be called,
  and the conversion throws a TypeError (for \<open>+\<close>, \<open>Object.prototype.valueOf\<close> comes
  first and returns the object, which is no primitive, so \<open>toString\<close> is tried all the
  same; an own \<open>valueOf\<close> is skipped as not callable). An array converts by joining its
  elements, so it throws when one of them does.
\<close>

fun stringable :: "jsval \<Rightarrow> bool" where
  "stringable (JArr xs) = list_all stringable xs"
| "stringable (JObj kvs) = (''toString'' \<notin> set (map fst kvs))"
| "stringable _ = True"

text \<open>
  The string of a value that converts: an array is its elements joined by commas,
  \<open>null\<close> and \<open>undefined\<close> elements giving the empty string; a plain object is
  \<open>[object Object]\<close>.
\<close>

fun stringForm :: "jsval \<Rightarrow> string" where
  "stringForm JUndefined = ''undefined''"
| "stringForm JNull = ''null''"
| "stringForm (JBool b) = (if b then ''true'' else ''false'')"
| "stringForm (JNum n) = n"
| "stringForm (JStr s) = s"
| "stringForm (JArr xs) =
     joinWith '',''
       (map (\<lambda>x. if x = JNull \<or> x = JUndefined then [] else stringForm x) xs)"
| "stringForm (JObj _) = ''[object Object]''"

definition jsToString :: "jsval \<Rightarrow> error + string" where
  "jsToString v = (if stringable v then Inr (stringForm v) else Inl TypeError)"

text \<open>
  \<open>v[i]\<close> for a numeric index: reading a property of \<open>null\<close> or \<open>undefined\<close> throws
  a TypeError; an array or a string gives its element or \<open>undefined\<close>; an object is
  looked up under the decimal name of the index; a boolean or a number has no such
  property.
\<close>

fun nth_or_undefined :: "jsval list \<Rightarrow> nat \<Rightarrow> jsval" where
  "nth_or_undefined xs i = (if i < length xs then xs ! i else JUndefined)"

fun getIndex :: "jsval \<Rightarrow> nat \<Rightarrow> error + jsval" where
  "getIndex JUndefined i = Inl TypeError"
| "getIndex JNull i = Inl TypeError"
| "getIndex (JArr xs) i = Inr (nth_or_undefined xs i)"
| "getIndex (JStr s) i = Inr (if i < length s then JStr [s ! i] else JUndefined)"
| "getIndex (JObj kvs) i =
     Inr (case map_of kvs (showNat i) of Some v \<Rightarrow> v | None \<Rightarrow> JUndefined)"
| "getIndex (JBool _) i = Inr JUndefined"
| "getIndex (JNum _) i = Inr JUndefined"

section \<open>The envelope search extractor \<open>buildSearchFromEnvelope\<close>\<close>

text \<open>
  The \<open>search\<close> object is a list of its properties in the order they were first
  assigned; a value is an array of strings (addresses) or a string.
\<close>

datatype sval = SAddrs "string list" | SText string

type_synonym searchIndex = "(string \<times> sval) list"

fun setProp :: "string \<Rightarrow> sval \<Rightarrow> searchIndex \<Rightarrow> searchIndex" where
  "setProp k v [] = [(k, v)]"
| "setProp k v (p # ps) = (if fst p = k then (k, v) # ps else p # setProp k v ps)"

text \<open>
  The body of \<open>for (const entry of entries)\<close>, which the source repeats word for word
  for the from, to and cc lists: \<open>pushAddress\<close> is its first statement (lines 117-122),
  \<open>pushName\<close> its second (lines 123-128); \<open>addresses\<close> and \<open>names\<close> are the two
  arrays they push to.
\<close>

definition pushAddress :: "jsval \<Rightarrow> string list \<Rightarrow> error + string list" where
  "pushAddress entry addresses =
     (case entry of
        JArr e \<Rightarrow>
          if truthy (nth_or_undefined e 2) \<and> truthy (nth_or_undefined e 3) then
            bindE (jsToString (nth_or_undefined e 2)) (\<lambda>localPart.
            bindE (jsToString (nth_or_undefined e 3)) (\<lambda>domain.
            let addr = trim (toLowerCase (localPart @ ''@'' @ domain))
            in Inr (if includesAt addr then addresses @ [addr] else addresses)))
          else Inr addresses
      | _ \<Rightarrow> Inr addresses)"

definition pushName :: "jsval \<Rightarrow> string list \<Rightarrow> error + string list" where
  "pushName entry names =
     (case entry of
        JArr e \<Rightarrow>
          if truthy (nth_or_undefined e 0) then
            bindE (jsToString (nth_or_undefined e 0)) (\<lambda>str.
            let name = trim (toLowerCase str)
            in Inr (if name \<noteq> [] then names @ [name] else names))
          else Inr names
      | _ \<Rightarrow> Inr names)"

fun collectEntries ::
  "jsval list \<Rightarrow> string list \<Rightarrow> string list \<Rightarrow> error + string list \<times> string list" where
  "collectEntries [] addresses names = Inr (addresses, names)"
| "collectEntries (entry # rest) addresses names =
     bindE (pushAddress entry addresses) (\<lambda>addresses1.
     bindE (pushName entry names) (\<lambda>names1.
     collectEntries rest addresses1 names1))"

text \<open>One of the three blocks: the list at one envelope position, written under the
  two given property names.\<close>

definition extractList ::
  "string \<Rightarrow> string \<Rightarrow> jsval \<Rightarrow> searchIndex \<Rightarrow> error + searchIndex" where
  "extractList addrKey nameKey entries search =
     (case entries of
        JArr es \<Rightarrow>
          if es \<noteq> [] then
            bindE (collectEntries es [] []) (\<lambda>(addresses, names).
            let search1 = (if addresses \<noteq> [] then setProp addrKey (SAddrs addresses) search
                           else search)
            in Inr (if names \<noteq> [] then setProp nameKey (SText (joinWith '' '' names)) search1
                    else search1))
          else Inr search
      | _ \<Rightarrow> Inr search)"

text \<open>
  Lines 192-196: the subject. \<open>subject.toLowerCase()\<close> is a method of strings only: on
  any other truthy value the call throws a TypeError.
\<close>

definition extractSubject :: "jsval \<Rightarrow> jsval \<Rightarrow> searchIndex \<Rightarrow> error + searchIndex" where
  "extractSubject envelope subjectField search =
     (if truthy subjectField then
        (case subjectField of
           JStr s \<Rightarrow> Inr (setProp ''subject'' (SText (trim (toLowerCase s))) search)
         | _ \<Rightarrow> Inl TypeError)
      else
        bindE (getIndex envelope 1) (\<lambda>raw.
        bindE (if truthy raw then jsToString raw else Inr []) (\<lambda>subject.
        if subject \<noteq> [] then
          Inr (setProp ''subject'' (SText (trim (toLowerCase subject))) search)
        else Inr search)))"

definition buildSearchFromEnvelope :: "jsval \<Rightarrow> jsval \<Rightarrow> error + searchIndex" where
  "buildSearchFromEnvelope envelope subjectField =
     (if \<not> truthy envelope then Inr []
      else
        bindE (getIndex envelope 2) (\<lambda>fromEntries.
        bindE (extractList ''from'' ''fromName'' fromEntries []) (\<lambda>search1.
        bindE (getIndex envelope 5) (\<lambda>toEntries.
        bindE (extractList ''to'' ''toName'' toEntries search1) (\<lambda>search2.
        bindE (getIndex envelope 6) (\<lambda>ccEntries.
        bindE (extractList ''cc'' ''ccName'' ccEntries search2) (\<lambda>search3.
        extractSubject envelope subjectField search3)))))))"

section \<open>The filter compiler \<open>prepareSearchFilter\<close>\<close>

subsection \<open>Payload, storage and filter\<close>

text \<open>
  An \<open>ObjectId\<close> is the value of its hexadecimal string. The payload reaches the
  compiler validated: its text fields are strings or absent (\<open>None\<close>), its flags are
  booleans (an absent flag is \<open>False\<close>), its dates are \<open>Date\<close> objects or absent, its
  sizes are numbers or absent.
\<close>

datatype objectId = ObjectId string

record orTerms =
  or_query :: "string option"
  or_from :: "string option"
  or_to :: "string option"
  or_subject :: "string option"

record payload =
  p_mailbox :: "string option"
  p_id :: "string option"
  p_thread :: "string option"
  p_or :: "orTerms option"
  p_query :: "string option"
  p_datestart :: "int option"
  p_dateend :: "int option"
  p_from :: "string option"
  p_to :: "string option"
  p_subject :: "string option"
  p_attachments :: bool
  p_flagged :: bool
  p_unseen :: bool
  p_seen :: bool
  p_searchable :: bool
  p_minSize :: "nat option"
  p_maxSize :: "nat option"

text \<open>Truthiness of an optional string and of an optional number.\<close>

fun truthyStr :: "string option \<Rightarrow> bool" where
  "truthyStr None = False"
| "truthyStr (Some s) = (s \<noteq> [])"

fun truthyNat :: "nat option \<Rightarrow> bool" where
  "truthyNat None = False"
| "truthyNat (Some n) = (n \<noteq> 0)"

text \<open>
  The three storage operations of the compiler, each for the user it is asked about: the
  identity lookup \<open>users.findOne\<close>, the count of the mailboxes that are neither Junk
  nor Trash, and the two listings of mailbox identifiers (\<open>specialUse\<close> not among, and
  among, Junk and Trash). \<open>Inl StorageFailure\<close> is a rejected call.
\<close>

datatype storageFailure = StorageFailure

record userData =
  username :: string
  address :: string

record db =
  usersFindOne :: "objectId \<Rightarrow> storageFailure + userData option"
  mailboxesCount :: "objectId \<Rightarrow> storageFailure + nat"
  mailboxesOther :: "objectId \<Rightarrow> storageFailure + objectId list"
  mailboxesJunkTrash :: "objectId \<Rightarrow> storageFailure + objectId list"

text \<open>The mailbox scope of a filter: an identifier, \<open>{$in: ids}\<close> or \<open>{$nin: ids}\<close>.\<close>

datatype mailboxScope =
    MailboxIs objectId
  | MailboxIn "objectId list"
  | MailboxNin "objectId list"

text \<open>
  A clause of \<open>$and\<close> or \<open>$or\<close>: \<open>{$text: {$search: q}}\<close>, \<open>{field: value}\<close>,
  \<open>{field: {$regex: pattern}}\<close>, \<open>{field: {$regex: pattern, $options: options}}\<close>,
  \<open>{$or: [...]}\<close> and \<open>{$and: [...]}\<close>. The source gives every \<open>$regex\<close> alone: the
  compiler builds no clause with \<open>$options\<close>.
\<close>

datatype clause =
    TextSearch string
  | FieldEq string string
  | FieldRegex string string
  | FieldRegexOptions string string string
  | OrClause "clause list"
  | AndClause "clause list"

record 'a bounds =
  b_gte :: "'a option"
  b_lte :: "'a option"

text \<open>The filter object; \<open>None\<close> is a property that was never set.\<close>

record filter =
  f_user :: objectId
  f_searchable :: "bool option"
  f_text :: "string option"
  f_mailbox :: "mailboxScope option"
  f_uid :: "uidQuery option"
  f_thread :: "objectId option"
  f_flagged :: "bool option"
  f_unseen :: "bool option"
  f_idate :: "int bounds option"
  f_and :: "clause list option"
  f_ha :: "bool option"
  f_size :: "nat bounds option"
  f_or :: "clause list option"

definition baseFilter :: "objectId \<Rightarrow> filter" where
  "baseFilter user =
     \<lparr> f_user = user, f_searchable = None, f_text = None, f_mailbox = None, f_uid = None,
       f_thread = None, f_flagged = None, f_unseen = None, f_idate = None, f_and = None,
       f_ha = None, f_size = None, f_or = None \<rparr>"

text \<open>\<open>payload.or || {}\<close>\<close>

definition orTermsOf :: "payload \<Rightarrow> orTerms" where
  "orTermsOf p =
     (case p_or p of
        Some t \<Rightarrow> t
      | None \<Rightarrow> \<lparr> or_query = None, or_from = None, or_to = None, or_subject = None \<rparr>)"

subsection \<open>The steps of the compiler, in source order\<close>

text \<open>
  Each step takes and returns the filter and the \<open>orQuery\<close> array built so far. The
  regex-escaping function \<open>escapeRegexStr\<close> comes from another module and is a parameter.
\<close>

type_synonym cstate = "filter \<times> clause list"

text \<open>Lines 105-111: the full-text term.\<close>

definition stepQuery :: "payload \<Rightarrow> cstate \<Rightarrow> cstate" where
  "stepQuery p = (\<lambda>(filter, orQuery).
     if truthyStr (p_query p) then
       (filter\<lparr> f_searchable := Some True, f_text := p_query p \<rparr>, orQuery)
     else if truthyStr (or_query (orTermsOf p)) then
       (filter\<lparr> f_searchable := Some True \<rparr>,
        orQuery @ [TextSearch (the (or_query (orTermsOf p)))])
     else (filter, orQuery))"

text \<open>
  Lines 113-167: the mailbox scope. A failed count is ignored and leaves the count
  undefined; a failed listing is rethrown as \<open>InternalDatabaseError\<close>.
\<close>

definition stepMailbox :: "db \<Rightarrow> objectId \<Rightarrow> payload \<Rightarrow> cstate \<Rightarrow> error + cstate" where
  "stepMailbox d user p = (\<lambda>(filter, orQuery).
     if truthyStr (p_mailbox p) then
       Inr (filter\<lparr> f_mailbox := Some (MailboxIs (ObjectId (the (p_mailbox p)))) \<rparr>, orQuery)
     else if p_searchable p then
       (let nonJunkAndTrashMailboxesCount =
              (case mailboxesCount d user of Inr n \<Rightarrow> Some n | Inl _ \<Rightarrow> None)
        in if truthyNat nonJunkAndTrashMailboxesCount
              \<and> the nonJunkAndTrashMailboxesCount < 200 then
             (case mailboxesOther d user of
                Inr mailboxes \<Rightarrow> Inr (filter\<lparr> f_mailbox := Some (MailboxIn mailboxes) \<rparr>, orQuery)
              | Inl _ \<Rightarrow> Inl InternalDatabaseError)
           else
             (case mailboxesJunkTrash d user of
                Inr mailboxes \<Rightarrow> Inr (filter\<lparr> f_mailbox := Some (MailboxNin mailboxes) \<rparr>, orQuery)
              | Inl _ \<Rightarrow> Inl InternalDatabaseError))
     else Inr (filter, orQuery))"

text \<open>Truthiness of \<open>idQuery\<close>: \<open>undefined\<close>, the number 0 and \<open>NaN\<close> are falsy, an
  object is truthy.\<close>

fun truthyUid :: "uidQuery option \<Rightarrow> bool" where
  "truthyUid None = False"
| "truthyUid (Some (UidEq (Num n))) = (n \<noteq> 0)"
| "truthyUid (Some (UidEq NaN)) = False"
| "truthyUid (Some _) = True"

text \<open>Lines 169-195: id range, thread, flagged, seen, unseen, searchable.\<close>

definition stepUid :: "payload \<Rightarrow> cstate \<Rightarrow> cstate" where
  "stepUid p = (\<lambda>(filter, orQuery).
     let idQuery = uidRangeStringToQuery (p_id p) in
     if f_mailbox filter \<noteq> None \<and> truthyUid idQuery then (filter\<lparr> f_uid := idQuery \<rparr>, orQuery)
     else (filter, orQuery))"

definition stepThread :: "payload \<Rightarrow> cstate \<Rightarrow> cstate" where
  "stepThread p = (\<lambda>(filter, orQuery).
     if truthyStr (p_thread p) then
       (filter\<lparr> f_thread := Some (ObjectId (the (p_thread p))) \<rparr>, orQuery)
     else (filter, orQuery))"

definition stepFlagged :: "payload \<Rightarrow> cstate \<Rightarrow> cstate" where
  "stepFlagged p = (\<lambda>(filter, orQuery).
     if p_flagged p then (filter\<lparr> f_flagged := Some True \<rparr>, orQuery) else (filter, orQuery))"

definition stepSeen :: "payload \<Rightarrow> cstate \<Rightarrow> cstate" where
  "stepSeen p = (\<lambda>(filter, orQuery).
     if p_seen p then (filter\<lparr> f_unseen := Some False, f_searchable := Some True \<rparr>, orQuery)
     else (filter, orQuery))"

definition stepUnseen :: "payload \<Rightarrow> cstate \<Rightarrow> cstate" where
  "stepUnseen p = (\<lambda>(filter, orQuery).
     if p_unseen p then (filter\<lparr> f_unseen := Some True, f_searchable := Some True \<rparr>, orQuery)
     else (filter, orQuery))"

definition stepSearchable :: "payload \<Rightarrow> cstate \<Rightarrow> cstate" where
  "stepSearchable p = (\<lambda>(filter, orQuery).
     if p_searchable p then (filter\<lparr> f_searchable := Some True \<rparr>, orQuery)
     else (filter, orQuery))"

text \<open>Lines 197-209: the date bounds.\<close>

definition ensureBounds :: "'a bounds option \<Rightarrow> 'a bounds" where
  "ensureBounds b = (case b of Some r \<Rightarrow> r | None \<Rightarrow> \<lparr> b_gte = None, b_lte = None \<rparr>)"

definition stepDatestart :: "payload \<Rightarrow> cstate \<Rightarrow> cstate" where
  "stepDatestart p = (\<lambda>(filter, orQuery).
     case p_datestart p of
       Some datestart \<Rightarrow>
         (filter\<lparr> f_idate := Some ((ensureBounds (f_idate filter))\<lparr> b_gte := Some datestart \<rparr>) \<rparr>,
          orQuery)
     | None \<Rightarrow> (filter, orQuery))"

definition stepDateend :: "payload \<Rightarrow> cstate \<Rightarrow> cstate" where
  "stepDateend p = (\<lambda>(filter, orQuery).
     case p_dateend p of
       Some dateend \<Rightarrow>
         (filter\<lparr> f_idate := Some ((ensureBounds (f_idate filter))\<lparr> b_lte := Some dateend \<rparr>) \<rparr>,
          orQuery)
     | None \<Rightarrow> (filter, orQuery))"

text \<open>
  Lines 211-255: the from and to terms. \<open>pushAnd\<close> is
  \<open>if (!filter.$and) filter.$and = []\<close> followed by the pushes.
\<close>

definition pushAnd :: "clause list \<Rightarrow> filter \<Rightarrow> filter" where
  "pushAnd cs flt =
     flt\<lparr> f_and := Some ((case f_and flt of None \<Rightarrow> [] | Some old \<Rightarrow> old) @ cs) \<rparr>"

definition fromClause :: "(string \<Rightarrow> string) \<Rightarrow> string \<Rightarrow> clause" where
  "fromClause escapeRegexStr raw =
     (let term = trim (toLowerCase raw) in
      if includesAt term then FieldEq ''search.from'' term
      else (let regex = escapeRegexStr term in FieldRegex ''search.fromName'' regex))"

definition toClause :: "(string \<Rightarrow> string) \<Rightarrow> string \<Rightarrow> clause" where
  "toClause escapeRegexStr raw =
     (let term = trim (toLowerCase raw) in
      if includesAt term then OrClause [FieldEq ''search.to'' term, FieldEq ''search.cc'' term]
      else (let regex = escapeRegexStr term in
            OrClause [FieldRegex ''search.toName'' regex, FieldRegex ''search.ccName'' regex]))"

definition stepFrom :: "(string \<Rightarrow> string) \<Rightarrow> payload \<Rightarrow> cstate \<Rightarrow> cstate" where
  "stepFrom escapeRegexStr p = (\<lambda>(filter, orQuery).
     if truthyStr (p_from p) then
       (pushAnd [fromClause escapeRegexStr (the (p_from p))] filter, orQuery)
     else (filter, orQuery))"

definition stepOrFrom :: "(string \<Rightarrow> string) \<Rightarrow> payload \<Rightarrow> cstate \<Rightarrow> cstate" where
  "stepOrFrom escapeRegexStr p = (\<lambda>(filter, orQuery).
     if truthyStr (or_from (orTermsOf p)) then
       (filter, orQuery @ [fromClause escapeRegexStr (the (or_from (orTermsOf p)))])
     else (filter, orQuery))"

definition stepTo :: "(string \<Rightarrow> string) \<Rightarrow> payload \<Rightarrow> cstate \<Rightarrow> cstate" where
  "stepTo escapeRegexStr p = (\<lambda>(filter, orQuery).
     if truthyStr (p_to p) then
       (pushAnd [toClause escapeRegexStr (the (p_to p))] filter, orQuery)
     else (filter, orQuery))"

definition stepOrTo :: "(string \<Rightarrow> string) \<Rightarrow> payload \<Rightarrow> cstate \<Rightarrow> cstate" where
  "stepOrTo escapeRegexStr p = (\<lambda>(filter, orQuery).
     if truthyStr (or_to (orTermsOf p)) then
       (filter, orQuery @ [toClause escapeRegexStr (the (or_to (orTermsOf p)))])
     else (filter, orQuery))"

text \<open>Lines 257-277: the subject terms, each word a prefix pattern on
  \<open>search.subjectWords\<close>.\<close>

definition subjectWordClause :: "(string \<Rightarrow> string) \<Rightarrow> string \<Rightarrow> clause" where
  "subjectWordClause escapeRegexStr word =
     FieldRegex ''search.subjectWords'' (''^'' @ escapeRegexStr word)"

definition subjectWords :: "string \<Rightarrow> string list" where
  "subjectWords raw = splitWords [] (trim (toLowerCase raw))"

definition stepSubject :: "(string \<Rightarrow> string) \<Rightarrow> payload \<Rightarrow> cstate \<Rightarrow> cstate" where
  "stepSubject escapeRegexStr p = (\<lambda>(filter, orQuery).
     if truthyStr (p_subject p) then
       (pushAnd (map (subjectWordClause escapeRegexStr) (subjectWords (the (p_subject p)))) filter,
        orQuery)
     else (filter, orQuery))"

definition orSubjectClause :: "(string \<Rightarrow> string) \<Rightarrow> string \<Rightarrow> clause" where
  "orSubjectClause escapeRegexStr raw =
     (let words = subjectWords raw in
      if length words = 1 then subjectWordClause escapeRegexStr (words ! 0)
      else AndClause (map (subjectWordClause escapeRegexStr) words))"

definition stepOrSubject :: "(string \<Rightarrow> string) \<Rightarrow> payload \<Rightarrow> cstate \<Rightarrow> cstate" where
  "stepOrSubject escapeRegexStr p = (\<lambda>(filter, orQuery).
     if truthyStr (or_subject (orTermsOf p)) then
       (filter, orQuery @ [orSubjectClause escapeRegexStr (the (or_subject (orTermsOf p)))])
     else (filter, orQuery))"

text \<open>Lines 279-295: attachments, sizes and the \<open>$or\<close> group.\<close>

definition stepAttachments :: "payload \<Rightarrow> cstate \<Rightarrow> cstate" where
  "stepAttachments p = (\<lambda>(filter, orQuery).
     if p_attachments p then (filter\<lparr> f_ha := Some True \<rparr>, orQuery) else (filter, orQuery))"

definition stepMinSize :: "payload \<Rightarrow> cstate \<Rightarrow> cstate" where
  "stepMinSize p = (\<lambda>(filter, orQuery).
     if truthyNat (p_minSize p) then
       (filter\<lparr> f_size := Some ((ensureBounds (f_size filter))\<lparr> b_gte := p_minSize p \<rparr>) \<rparr>,
        orQuery)
     else (filter, orQuery))"

definition stepMaxSize :: "payload \<Rightarrow> cstate \<Rightarrow> cstate" where
  "stepMaxSize p = (\<lambda>(filter, orQuery).
     if truthyNat (p_maxSize p) then
       (filter\<lparr> f_size := Some ((ensureBounds (f_size filter))\<lparr> b_lte := p_maxSize p \<rparr>) \<rparr>,
        orQuery)
     else (filter, orQuery))"

definition stepOr :: "cstate \<Rightarrow> cstate" where
  "stepOr = (\<lambda>(filter, orQuery).
     if orQuery \<noteq> [] then (filter\<lparr> f_or := Some orQuery \<rparr>, orQuery) else (filter, orQuery))"

subsection \<open>The compiler\<close>

text \<open>Everything after the mailbox scope: lines 169-295, which call no storage.\<close>

definition afterMailbox :: "(string \<Rightarrow> string) \<Rightarrow> payload \<Rightarrow> cstate \<Rightarrow> cstate" where
  "afterMailbox escapeRegexStr p st =
     stepOr (stepMaxSize p (stepMinSize p (stepAttachments p
       (stepOrSubject escapeRegexStr p (stepSubject escapeRegexStr p
       (stepOrTo escapeRegexStr p (stepTo escapeRegexStr p
       (stepOrFrom escapeRegexStr p (stepFrom escapeRegexStr p
       (stepDateend p (stepDatestart p
       (stepSearchable p (stepUnseen p (stepSeen p
       (stepFlagged p (stepThread p (stepUid p st)))))))))))))))))"

text \<open>
  The result is the thrown error, or the pair of the filter and the payload's
  \<open>query\<close>. A failed identity lookup is rethrown as \<open>InternalDatabaseError\<close>; a lookup
  that finds nothing throws \<open>UserNotFound\<close>.
\<close>

definition prepareSearchFilter ::
  "(string \<Rightarrow> string) \<Rightarrow> db \<Rightarrow> objectId \<Rightarrow> payload \<Rightarrow> error + (filter \<times> string option)" where
  "prepareSearchFilter escapeRegexStr d user p =
     (case usersFindOne d user of
        Inl _ \<Rightarrow> Inl InternalDatabaseError
      | Inr None \<Rightarrow> Inl UserNotFound
      | Inr (Some userData) \<Rightarrow>
          (case stepMailbox d user p (stepQuery p (baseFilter user, [])) of
             Inl err \<Rightarrow> Inl err
           | Inr st \<Rightarrow> Inr (fst (afterMailbox escapeRegexStr p st), p_query p)))"

section \<open>The migration \<open>addSearchFields\<close>\<close>

text \<open>
  A message document: its \<open>_id\<close> (an \<open>ObjectId\<close>, modelled by its position in the
  order of identifiers; as an object it is always truthy), the two fields the migration
  projects, and the \<open>search\<close> field, \<open>None\<close> while the document has none. The collection
  is the list of its documents.
\<close>

record doc =
  d_id :: nat
  d_envelope :: jsval
  d_subject :: jsval
  d_search :: "searchIndex option"

definition BATCH_SIZE :: nat where
  "BATCH_SIZE = 1000"

text \<open>\<open>collection.find({}).sort({_id: -1}).limit(1)\<close> and the identifier read from it.\<close>

definition maxIdAtStart :: "doc list \<Rightarrow> nat option" where
  "maxIdAtStart store =
     (case take 1 (rev (sort_key d_id store)) of
        [] \<Rightarrow> None
      | maxIdDoc # _ \<Rightarrow> Some (d_id maxIdDoc))"

text \<open>The query of the count and of every fetch: no \<open>search\<close> field, \<open>_id\<close> at most the
  snapshot bound and, once the cursor is set, above the cursor.\<close>

definition matchesQuery :: "nat \<Rightarrow> nat option \<Rightarrow> doc \<Rightarrow> bool" where
  "matchesQuery bound lastId d =
     (d_search d = None \<and> d_id d \<le> bound \<and>
      (case lastId of None \<Rightarrow> True | Some l \<Rightarrow> l < d_id d))"

definition fetchBatch :: "nat \<Rightarrow> nat option \<Rightarrow> doc list \<Rightarrow> doc list" where
  "fetchBatch bound lastId store =
     take BATCH_SIZE (sort_key d_id (filter (matchesQuery bound lastId) store))"

text \<open>The bulk operations of a batch; the extractor's exception leaves the loop.\<close>

fun buildOps :: "doc list \<Rightarrow> error + (nat \<times> searchIndex) list" where
  "buildOps [] = Inr []"
| "buildOps (d # ds) =
     (case buildSearchFromEnvelope (d_envelope d) (d_subject d) of
        Inl e \<Rightarrow> Inl e
      | Inr search \<Rightarrow>
          (case buildOps ds of
             Inl e \<Rightarrow> Inl e
           | Inr bulkOps \<Rightarrow> Inr ((d_id d, search) # bulkOps)))"

text \<open>
  \<open>updateOne\<close> with \<open>{$set: {search}}\<close> changes the first document with the given
  \<open>_id\<close>; it counts as modified when the stored value changes. \<open>bulkWrite\<close> applies
  the operations and returns the collection and \<open>modifiedCount\<close>.
\<close>

fun updateOne :: "nat \<Rightarrow> searchIndex \<Rightarrow> doc list \<Rightarrow> doc list \<times> nat" where
  "updateOne i s [] = ([], 0)"
| "updateOne i s (d # ds) =
     (if d_id d = i then (d\<lparr> d_search := Some s \<rparr> # ds, if d_search d = Some s then 0 else 1)
      else (case updateOne i s ds of (ds1, n) \<Rightarrow> (d # ds1, n)))"

fun bulkWrite :: "(nat \<times> searchIndex) list \<Rightarrow> doc list \<Rightarrow> doc list \<times> nat" where
  "bulkWrite [] store = (store, 0)"
| "bulkWrite ((i, s) # ops) store =
     (case updateOne i s store of
        (store1, n) \<Rightarrow> (case bulkWrite ops store1 of (store2, m) \<Rightarrow> (store2, n + m)))"

text \<open>
  The state of a run: the collection, the loop's variables, and a record of what the run
  fetched and what it staged for writing, batch by batch. \<open>r_aborted\<close> is the exception
  that ended the run, if one did. Logging is left out.
\<close>

record run =
  r_store :: "doc list"
  r_processedCount :: nat
  r_batchNumber :: nat
  r_lastId :: "nat option"
  r_fetched :: "doc list list"
  r_staged :: "(nat \<times> searchIndex) list list"
  r_aborted :: "error option"

definition initialRun :: "doc list \<Rightarrow> run" where
  "initialRun store =
     \<lparr> r_store = store, r_processedCount = 0, r_batchNumber = 0, r_lastId = None,
       r_fetched = [], r_staged = [], r_aborted = None \<rparr>"

text \<open>
  Other writers insert documents while the migration runs: \<open>inserts\<close> lists, iteration by
  iteration, the documents that arrive before that iteration's fetch.
\<close>

definition arrive :: "doc list list \<Rightarrow> doc list \<Rightarrow> doc list" where
  "arrive inserts store = (case inserts of [] \<Rightarrow> store | new # _ \<Rightarrow> store @ new)"

function migrateLoop :: "nat \<Rightarrow> doc list list \<Rightarrow> run \<Rightarrow> run" where
  "migrateLoop bound inserts st =
     (let store = arrive inserts (r_store st);
          batch = fetchBatch bound (r_lastId st) store
      in if batch = [] then st\<lparr> r_store := store \<rparr>
         else
           (case buildOps batch of
              Inl e \<Rightarrow>
                st\<lparr> r_store := store, r_fetched := r_fetched st @ [batch],
                    r_aborted := Some e \<rparr>
            | Inr bulkOps \<Rightarrow>
                (case (if bulkOps \<noteq> [] then bulkWrite bulkOps store else (store, 0)) of
                   (store1, modifiedCount) \<Rightarrow>
                     migrateLoop bound (tl inserts)
                       (st\<lparr> r_store := store1,
                            r_processedCount := r_processedCount st + modifiedCount,
                            r_batchNumber := r_batchNumber st + 1,
                            r_lastId := Some (d_id (last batch)),
                            r_fetched := r_fetched st @ [batch],
                            r_staged := r_staged st @ [bulkOps] \<rparr>))))"
  by pat_completeness auto

text \<open>
  The loop ends: every fetched document lies above the cursor and at or below the
  bound, and the cursor moves to the last fetched identifier.
\<close>

lemma fetchBatch_matches:
  "d \<in> set (fetchBatch bound lastId store) \<Longrightarrow> matchesQuery bound lastId d"
  by (auto simp: fetchBatch_def dest: in_set_takeD)

lemma fetchBatch_last:
  "fetchBatch bound lastId store \<noteq> [] \<Longrightarrow>
   matchesQuery bound lastId (last (fetchBatch bound lastId store))"
  using fetchBatch_matches last_in_set by blast

termination migrateLoop
proof (relation "measure (\<lambda>(bound, inserts, st).
         Suc bound - (case r_lastId st of None \<Rightarrow> 0 | Some l \<Rightarrow> Suc l))", goal_cases)
  case 1
  then show ?case by simp
next
  case (2 bound inserts st store batch bulkOps x y)
  then have "matchesQuery bound (r_lastId st) (last batch)"
    using fetchBatch_last by blast
  then show ?case
    by (auto simp: matchesQuery_def split: option.splits)
qed

declare migrateLoop.simps [simp del]

text \<open>
  The migration: the snapshot bound is read once, before the count and the loop, and
  handed to the loop as a constant.
\<close>

definition addSearchFields :: "doc list list \<Rightarrow> doc list \<Rightarrow> run" where
  "addSearchFields inserts store =
     (case maxIdAtStart store of
        None \<Rightarrow> initialRun store
      | Some bound \<Rightarrow>
          (let totalToMigrate = length (filter (matchesQuery bound None) store)
           in if totalToMigrate = 0 then initialRun store
              else migrateLoop bound inserts (initialRun store)))"

section \<open>Properties and example inputs\<close>

text \<open>
  The order of the numbers that are not \<open>NaN\<close>, and the property of a range: with both
  bounds the low bound is below the high bound, and no bound is \<open>NaN\<close>.
\<close>

fun numLe :: "jsnum \<Rightarrow> jsnum \<Rightarrow> bool" where
  "numLe (Num a) (Num b) = (a \<le> b)"
| "numLe (Num a) Infinity = True"
| "numLe Infinity Infinity = True"
| "numLe _ _ = False"

fun numLess :: "jsnum \<Rightarrow> jsnum \<Rightarrow> bool" where
  "numLess (Num a) (Num b) = (a < b)"
| "numLess (Num a) Infinity = True"
| "numLess _ _ = False"

definition lowBelowHigh :: "uidQuery option \<Rightarrow> bool" where
  "lowBelowHigh q =
     (case q of
        Some (UidRange lo (Some hi)) \<Rightarrow> numLess lo hi
      | Some (UidRange lo None) \<Rightarrow> \<not> isNaN lo
      | _ \<Rightarrow> True)"

text \<open>The clauses of \<open>$and\<close>, none when the property is absent.\<close>

definition andList :: "filter \<Rightarrow> clause list" where
  "andList flt = (case f_and flt of None \<Rightarrow> [] | Some cs \<Rightarrow> cs)"

text \<open>A payload with no criteria, an owner, and a storage that finds the owner and
  answers the count and the two listings as given.\<close>

definition emptyPayload :: payload where
  "emptyPayload =
     \<lparr> p_mailbox = None, p_id = None, p_thread = None, p_or = None, p_query = None,
       p_datestart = None, p_dateend = None, p_from = None, p_to = None, p_subject = None,
       p_attachments = False, p_flagged = False, p_unseen = False, p_seen = False,
       p_searchable = False, p_minSize = None, p_maxSize = None \<rparr>"

definition storage ::
  "storageFailure + nat \<Rightarrow> storageFailure + objectId list \<Rightarrow> storageFailure + objectId list \<Rightarrow> db" where
  "storage c other junk =
     \<lparr> usersFindOne = (\<lambda>u. Inr (Some \<lparr> username = ''ann'', address = ''ann@x.com'' \<rparr>)),
       mailboxesCount = (\<lambda>u. c),
       mailboxesOther = (\<lambda>u. other),
       mailboxesJunkTrash = (\<lambda>u. junk) \<rparr>"

text \<open>Example payloads and the filters they compile to.\<close>

definition user0 :: objectId where
  "user0 = ObjectId ''507f1f77bcf86cd799439011''"

definition junkIds :: "objectId list" where
  "junkIds = [ObjectId ''junk'', ObjectId ''trash'']"

definition otherIds :: "objectId list" where
  "otherIds = [ObjectId ''inbox'', ObjectId ''sent'']"

definition searchablePayload :: payload where
  "searchablePayload = emptyPayload\<lparr> p_searchable := True \<rparr>"

definition seenUnseenPayload :: payload where
  "seenUnseenPayload = emptyPayload\<lparr> p_seen := True, p_unseen := True \<rparr>"

definition seenUnseenFilter :: filter where
  "seenUnseenFilter = (baseFilter user0)\<lparr> f_searchable := Some True, f_unseen := Some True \<rparr>"

definition idOnlyPayload :: payload where
  "idOnlyPayload = emptyPayload\<lparr> p_id := Some ''5:10'' \<rparr>"

definition alicePayload :: payload where
  "alicePayload = emptyPayload\<lparr> p_from := Some ''alice@x.com'' \<rparr>"

definition aliceFilter :: filter where
  "aliceFilter = (baseFilter user0)\<lparr> f_and := Some [FieldEq ''search.from'' ''alice@x.com''] \<rparr>"

definition bobPayload :: payload where
  "bobPayload = emptyPayload\<lparr> p_to := Some '' Bob Smith '' \<rparr>"

definition bobFilter :: filter where
  "bobFilter = (baseFilter user0)\<lparr> f_and :=
     Some [OrClause [FieldRegex ''search.toName'' ''bob smith'',
                     FieldRegex ''search.ccName'' ''bob smith'']] \<rparr>"

definition bobFromPayload :: payload where
  "bobFromPayload = emptyPayload\<lparr> p_from := Some '' Bob Smith '' \<rparr>"

definition bobFromFilter :: filter where
  "bobFromFilter = (baseFilter user0)\<lparr> f_and :=
     Some [FieldRegex ''search.fromName'' ''bob smith''] \<rparr>"

text \<open>
  The pattern predicate of a name term in the words of its description: a
  case-insensitive pattern, which a query document writes as a pattern with the option
  \<open>i\<close>.
\<close>

definition statedNamePattern :: "string \<Rightarrow> string \<Rightarrow> clause" where
  "statedNamePattern field pattern = FieldRegexOptions field pattern ''i''"

text \<open>
  The extractor in the words of its description: the entries of a list that have a local
  part and a domain, each giving its address; the entries that have a display name, each
  giving its name (\<open>statedNames\<close>); and the entries whose display name is not empty
  once trimmed (\<open>amendedNames\<close>).
\<close>

definition hasAddress :: "jsval \<Rightarrow> bool" where
  "hasAddress entry =
     (case entry of
        JArr e \<Rightarrow> truthy (nth_or_undefined e 2) \<and> truthy (nth_or_undefined e 3)
      | _ \<Rightarrow> False)"

definition addressOf :: "jsval \<Rightarrow> string" where
  "addressOf entry =
     (case entry of
        JArr e \<Rightarrow> trim (toLowerCase (stringForm (nth_or_undefined e 2) @ ''@'' @
                                      stringForm (nth_or_undefined e 3)))
      | _ \<Rightarrow> [])"

definition hasName :: "jsval \<Rightarrow> bool" where
  "hasName entry = (case entry of JArr e \<Rightarrow> truthy (nth_or_undefined e 0) | _ \<Rightarrow> False)"

definition nameOf :: "jsval \<Rightarrow> string" where
  "nameOf entry =
     (case entry of
        JArr e \<Rightarrow> trim (toLowerCase (stringForm (nth_or_undefined e 0)))
      | _ \<Rightarrow> [])"

definition statedAddresses :: "jsval list \<Rightarrow> string list" where
  "statedAddresses es = map addressOf (filter hasAddress es)"

definition statedNames :: "jsval list \<Rightarrow> string list" where
  "statedNames es = map nameOf (filter hasName es)"

definition amendedNames :: "jsval list \<Rightarrow> string list" where
  "amendedNames es = map nameOf (filter (\<lambda>e. hasName e \<and> nameOf e \<noteq> []) es)"

text \<open>
  The entries of the list at an envelope position (none when the position holds no
  array), and a field of the result: absent when its list is empty.
\<close>

definition listAt :: "jsval \<Rightarrow> nat \<Rightarrow> jsval list" where
  "listAt envelope i = (case getIndex envelope i of Inr (JArr es) \<Rightarrow> es | _ \<Rightarrow> [])"

definition addressField :: "string list \<Rightarrow> sval option" where
  "addressField as = (if as = [] then None else Some (SAddrs as))"

definition nameField :: "string list \<Rightarrow> sval option" where
  "nameField ns = (if ns = [] then None else Some (SText (joinWith '' '' ns)))"

definition entriesOf :: "jsval \<Rightarrow> jsval list" where
  "entriesOf v = (case v of JArr es \<Rightarrow> es | _ \<Rightarrow> [])"

definition isString :: "jsval \<Rightarrow> bool" where
  "isString v = (case v of JStr _ \<Rightarrow> True | _ \<Rightarrow> False)"

text \<open>
  When the extractor returns: every value it converts to a string converts. These are,
  per entry that is an array, the local part and the domain when both are there, and the
  display name when it is there; and for the subject, the subject field, which must be a
  string when it is there, and otherwise the subject of the envelope when that is there.
\<close>

definition writeList :: "string \<Rightarrow> string \<Rightarrow> jsval list \<Rightarrow> searchIndex \<Rightarrow> searchIndex" where
  "writeList ak nk es s =
     (let s1 = (if statedAddresses es \<noteq> [] then setProp ak (SAddrs (statedAddresses es)) s
                else s)
      in if amendedNames es \<noteq> []
         then setProp nk (SText (joinWith '' '' (amendedNames es))) s1
         else s1)"

definition entryConverts :: "jsval \<Rightarrow> bool" where
  "entryConverts entry =
     (case entry of
        JArr e \<Rightarrow>
          (\<not> (truthy (nth_or_undefined e 2) \<and> truthy (nth_or_undefined e 3))
           \<or> (stringable (nth_or_undefined e 2) \<and> stringable (nth_or_undefined e 3)))
          \<and> (\<not> truthy (nth_or_undefined e 0) \<or> stringable (nth_or_undefined e 0))
      | _ \<Rightarrow> True)"

definition subjectConverts :: "jsval \<Rightarrow> jsval \<Rightarrow> bool" where
  "subjectConverts envelope subjectField =
     (if truthy subjectField then isString subjectField
      else (case getIndex envelope 1 of
              Inr raw \<Rightarrow> \<not> truthy raw \<or> stringable raw
            | Inl _ \<Rightarrow> True))"

definition converts :: "jsval \<Rightarrow> jsval \<Rightarrow> bool" where
  "converts envelope subjectField =
     (list_all entryConverts (listAt envelope 2)
      \<and> list_all entryConverts (listAt envelope 5)
      \<and> list_all entryConverts (listAt envelope 6)
      \<and> subjectConverts envelope subjectField)"

text \<open>Example entries, and an envelope with a given from-list.\<close>

definition janeEntry :: jsval where
  "janeEntry = JArr [JStr ''Jane Doe'', JNull, JStr ''jane'', JStr ''example.com'']"

definition envelopeWithFrom :: "jsval list \<Rightarrow> jsval" where
  "envelopeWithFrom entries =
     JArr [JNull, JNull, JArr entries, JNull, JNull, JArr [], JArr [], JNull, JNull, JNull]"

definition toStringEntry :: jsval where
  "toStringEntry = JArr [JObj [(''toString'', JNum ''1'')], JNull, JStr ''jane'', JStr ''example.com'']"

definition noDomainEntry :: jsval where
  "noDomainEntry = JArr [JStr ''Jane Doe'', JNull, JStr ''jane'', JNull]"

definition blankNameEntry :: jsval where
  "blankNameEntry = JArr [JStr '' '', JNull, JStr ''jane'', JStr ''example.com'']"

text \<open>Payloads with a mandatory and with a disjunctive subject term.\<close>

definition subjectPayload :: payload where
  "subjectPayload = emptyPayload\<lparr> p_subject := Some ''hello world'' \<rparr>"

definition orSubjectPayload :: payload where
  "orSubjectPayload = emptyPayload\<lparr> p_or :=
     Some \<lparr> or_query = None, or_from = None, or_to = None, or_subject = Some ''Hello'' \<rparr> \<rparr>"

text \<open>The state after one turn of the loop that wrote the batch.\<close>

definition nextRun :: "run \<Rightarrow> doc list \<Rightarrow> (nat \<times> searchIndex) list \<Rightarrow> doc list \<Rightarrow> run" where
  "nextRun st batch bulkOps store =
     st\<lparr> r_store := fst (bulkWrite bulkOps store),
         r_processedCount := r_processedCount st + snd (bulkWrite bulkOps store),
         r_batchNumber := r_batchNumber st + 1,
         r_lastId := Some (d_id (last batch)),
         r_fetched := r_fetched st @ [batch],
         r_staged := r_staged st @ [bulkOps] \<rparr>"

text \<open>An example collection, and documents that arrive while a run goes on.\<close>

definition messageDoc :: "nat \<Rightarrow> string \<Rightarrow> searchIndex option \<Rightarrow> doc" where
  "messageDoc i subject search =
     \<lparr> d_id = i,
       d_envelope = JArr [JNull, JStr subject, JArr [], JNull, JNull, JArr [], JArr []],
       d_subject = JStr subject, d_search = search \<rparr>"

definition exampleStore :: "doc list" where
  "exampleStore =
     [messageDoc 3 ''Third'' None, messageDoc 1 ''First'' None,
      messageDoc 2 ''Second'' (Some [(''subject'', SText ''second'')])]"

definition exampleInserts :: "doc list list" where
  "exampleInserts = [[messageDoc 7 ''Late'' None, messageDoc 0 ''Early'' None]]"

section \<open>The range parser: claim C3\<close>

subsection \<open>Splitting and the three grammars\<close>

lemma split_not_Nil: "split c s \<noteq> []"
  by (induction s) (auto split: list.splits)

lemma split_no_sep: "c \<notin> set s \<Longrightarrow> split c s = [s]"
  by (induction s) auto

lemma split_append_sep: "c \<notin> set a \<Longrightarrow> split c (a @ c # b) = a # split c b"
  by (induction a) auto

lemma split_covers: "x \<in> set s \<Longrightarrow> x \<noteq> c \<Longrightarrow> \<exists>p \<in> set (split c s). x \<in> set p"
proof (induction s)
  case Nil
  then show ?case by simp
next
  case (Cons y ys)
  obtain p ps where sp: "split c ys = p # ps"
    using split_not_Nil [of c ys] by (cases "split c ys") auto
  show ?case
  proof (cases "x = y")
    case True
    with Cons.prems sp show ?thesis by auto
  next
    case False
    with Cons.prems have "x \<in> set ys" by simp
    with Cons.IH Cons.prems obtain q where "q \<in> set (split c ys)" "x \<in> set q" by blast
    with sp show ?thesis by (cases "y = c") auto
  qed
qed

lemma join_split: "joinWith [c] (split c s) = s"
proof (induction s)
  case Nil
  then show ?case by simp
next
  case (Cons x xs)
  obtain p ps where sp: "split c xs = p # ps"
    using split_not_Nil [of c xs] by (cases "split c xs") auto
  with Cons.IH have j: "joinWith [c] (p # ps) = xs" by simp
  show ?case
  proof (cases "x = c")
    case True
    with sp j show ?thesis by simp
  next
    case False
    with sp j show ?thesis by (cases ps) auto
  qed
qed

lemma split_join:
  assumes "\<forall>p \<in> set ds. c \<notin> set p" "ds \<noteq> []"
  shows "split c (joinWith [c] ds) = ds"
  using assms
proof (induction "[c]" ds rule: joinWith.induct)
  case 1
  then show ?case by simp
next
  case (2 x)
  then show ?case by (simp add: split_no_sep)
next
  case (3 x y ys)
  then show ?case by (simp add: split_append_sep)
qed

lemma isDigits_chars: "isDigits s \<Longrightarrow> x \<in> set s \<Longrightarrow> isDigit x"
  by (auto simp: isDigits_def list_all_iff)

lemma colon_not_digit: "\<not> isDigit CHR '':''"
  by (simp add: isDigit_def)

lemma comma_not_digit: "\<not> isDigit CHR '',''"
  by (simp add: isDigit_def)

lemma star_not_digit: "\<not> isDigit CHR ''*''"
  by (simp add: isDigit_def)

lemma star_not_digits: "\<not> isDigits ''*''"
  by (simp add: isDigits_def isDigit_def)

lemma matchesList_chars:
  assumes "matchesList s" "x \<in> set s" shows "isDigit x \<or> x = CHR '',''"
proof (cases "x = CHR '',''")
  case True
  then show ?thesis by simp
next
  case False
  with assms(2) obtain p where "p \<in> set (split CHR '','' s)" "x \<in> set p"
    using split_covers by blast
  with assms(1) show ?thesis
    by (auto simp: matchesList_def list_all_iff dest: isDigits_chars)
qed

lemma pair_not_single: "\<not> matchesSingle (a @ CHR '':'' # b)"
  using colon_not_digit by (auto simp: matchesSingle_def isDigits_def)

lemma pair_not_list: "\<not> matchesList (a @ CHR '':'' # b)"
  using matchesList_chars [of "a @ CHR '':'' # b" "CHR '':''"] colon_not_digit by auto

lemma split_pair:
  assumes "isDigits a" "isDigits b \<or> b = ''*''"
  shows "split CHR '':'' (a @ CHR '':'' # b) = [a, b]"
proof -
  have "CHR '':'' \<notin> set a" "CHR '':'' \<notin> set b"
    using assms colon_not_digit isDigits_chars by fastforce+
  then show ?thesis by (simp add: split_append_sep split_no_sep)
qed

lemma matchesPair_iff:
  "matchesPair s \<longleftrightarrow> (\<exists>a b. isDigits a \<and> (isDigits b \<or> b = ''*'') \<and> s = a @ '':'' @ b)"
proof
  assume "matchesPair s"
  then obtain a b where ab: "split CHR '':'' s = [a, b]" "isDigits a" "isDigits b \<or> b = ''*''"
    by (auto simp: matchesPair_def split: list.splits)
  have "joinWith '':'' (split CHR '':'' s) = s" by (rule join_split)
  with ab(1) have "s = a @ '':'' @ b" by simp
  with ab show "\<exists>a b. isDigits a \<and> (isDigits b \<or> b = ''*'') \<and> s = a @ '':'' @ b" by blast
next
  assume "\<exists>a b. isDigits a \<and> (isDigits b \<or> b = ''*'') \<and> s = a @ '':'' @ b"
  then obtain a b where ab: "isDigits a" "isDigits b \<or> b = ''*''" "s = a @ '':'' @ b" by blast
  from ab(1,2) have "split CHR '':'' (a @ CHR '':'' # b) = [a, b]" by (rule split_pair)
  with ab show "matchesPair s" by (simp add: matchesPair_def)
qed

lemma digits_no_comma: "list_all isDigits ds \<Longrightarrow> \<forall>p \<in> set ds. CHR '','' \<notin> set p"
  using comma_not_digit by (auto simp: list_all_iff dest: isDigits_chars)

lemma matchesList_iff:
  "matchesList s \<longleftrightarrow> (\<exists>ds. ds \<noteq> [] \<and> list_all isDigits ds \<and> s = joinWith '','' ds)"
proof
  assume m: "matchesList s"
  have "joinWith '','' (split CHR '','' s) = s" by (rule join_split)
  with m split_not_Nil [of "CHR '',''" s]
  show "\<exists>ds. ds \<noteq> [] \<and> list_all isDigits ds \<and> s = joinWith '','' ds"
    unfolding matchesList_def by metis
next
  assume "\<exists>ds. ds \<noteq> [] \<and> list_all isDigits ds \<and> s = joinWith '','' ds"
  then obtain ds where ds: "ds \<noteq> []" "list_all isDigits ds" "s = joinWith '','' ds" by blast
  have "split CHR '','' (joinWith '','' ds) = ds"
    using digits_no_comma [OF ds(2)] ds(1) by (rule split_join)
  with ds show "matchesList s" by (simp add: matchesList_def)
qed

lemma query_None_iff:
  "uidRangeStringToQuery (Some s) = None \<longleftrightarrow>
     \<not> (matchesSingle s \<or> matchesList s \<or> matchesPair s)"
proof (cases "s = []")
  case True
  then show ?thesis
    by (simp add: uidRangeStringToQuery_def matchesSingle_def matchesList_def matchesPair_def
        isDigits_def)
next
  case False
  then show ?thesis by (simp add: uidRangeStringToQuery_def Let_def)
qed

subsection \<open>Numbers of digit strings\<close>

lemma bitLength_le: "bitLength n \<le> k \<longleftrightarrow> n < 2 ^ k"
proof (induction n arbitrary: k rule: bitLength.induct)
  case (1 n)
  show ?case
  proof (cases "n = 0")
    case True
    then show ?thesis by (simp add: bitLength.simps)
  next
    case False
    show ?thesis
    proof (cases k)
      case 0
      with False show ?thesis by (simp add: bitLength.simps [of n])
    next
      case (Suc j)
      from False have "bitLength n = Suc (bitLength (n div 2))"
        by (simp add: bitLength.simps [of n])
      moreover from False have "bitLength (n div 2) \<le> j \<longleftrightarrow> n div 2 < 2 ^ j"
        by (rule 1)
      moreover have "n div 2 < 2 ^ j \<longleftrightarrow> n < 2 ^ Suc j" by auto
      ultimately show ?thesis using Suc by simp
    qed
  qed
qed

lemma roundToDouble_small: "n < 2 ^ 53 \<Longrightarrow> roundToDouble n = Num n"
  by (simp add: roundToDouble_def bitLength_le)

lemma roundToDouble_not_NaN: "roundToDouble n \<noteq> NaN"
  by (simp add: roundToDouble_def Let_def)

lemma Number_digits: "isDigits a \<Longrightarrow> Number a = roundToDouble (digitsValue a)"
  by (simp add: Number_def)

lemma Number_not_NaN: "isDigits a \<Longrightarrow> Number a \<noteq> NaN"
  by (simp add: Number_def roundToDouble_not_NaN)

lemma Number_star: "Number ''*'' = NaN"
  by (simp add: Number_def star_not_digits)

lemma strictEq_iff: "x \<noteq> NaN \<Longrightarrow> y \<noteq> NaN \<Longrightarrow> strictEq x y \<longleftrightarrow> x = y"
  by (cases x; cases y) auto

lemma compare_le_iff: "x \<noteq> NaN \<Longrightarrow> y \<noteq> NaN \<Longrightarrow> compareNumbers x y \<le> 0 \<longleftrightarrow> numLe x y"
  by (cases x; cases y) auto

lemma numLe_less: "numLe x y \<Longrightarrow> x \<noteq> y \<Longrightarrow> numLess x y"
  by (cases x; cases y) auto

lemma not_numLe_less: "x \<noteq> NaN \<Longrightarrow> y \<noteq> NaN \<Longrightarrow> \<not> numLe x y \<Longrightarrow> numLess y x"
  by (cases x; cases y) auto

lemma numLess_le: "numLess x y \<Longrightarrow> numLe x y"
  by (cases x; cases y) auto

lemma numLess_irrefl: "\<not> numLess x x"
  by (cases x) auto

lemma numLess_asym: "numLess x y \<Longrightarrow> \<not> numLess y x"
  by (cases x; cases y) auto

lemma numLe_trans: "numLe x y \<Longrightarrow> numLe y z \<Longrightarrow> numLe x z"
  by (cases x; cases y; cases z) auto

lemma numLe_total: "x \<noteq> NaN \<Longrightarrow> y \<noteq> NaN \<Longrightarrow> numLe x y \<or> numLe y x"
  by (cases x; cases y) auto

lemma numLess_not_NaN: "numLess x y \<Longrightarrow> x \<noteq> NaN \<and> y \<noteq> NaN"
  by (cases x; cases y) auto

subsection \<open>Colon pairs\<close>

lemma pair_parts:
  assumes "x \<noteq> NaN" "y \<noteq> NaN"
  shows "jsSort [x, y] = (if numLe x y then [x, y] else [y, x])"
  using assms by (simp add: jsSort_def compare_le_iff)

lemma pair_query:
  assumes a: "isDigits a" and b: "isDigits b"
  shows "uidRangeStringToQuery (Some (a @ '':'' @ b)) =
     Some (if Number a = Number b then UidEq (Number a)
           else if numLess (Number a) (Number b) then UidRange (Number a) (Some (Number b))
           else UidRange (Number b) (Some (Number a)))"
proof -
  let ?x = "Number a" and ?y = "Number b"
  have x: "?x \<noteq> NaN" using a by (rule Number_not_NaN)
  have y: "?y \<noteq> NaN" using b by (rule Number_not_NaN)
  have sp: "split CHR '':'' (a @ CHR '':'' # b) = [a, b]" using a b by (simp add: split_pair)
  have m: "matchesPair (a @ CHR '':'' # b)" using a b by (simp add: matchesPair_def sp)
  have q: "uidRangeStringToQuery (Some (a @ '':'' @ b)) =
      (let parts = jsSort [?x, ?y] in
       if strictEq (parts ! 0) (parts ! 1) then Some (UidEq (parts ! 0))
       else if \<not> isNaN (parts ! 1) then Some (UidRange (parts ! 0) (Some (parts ! 1)))
       else Some (UidRange (parts ! 0) None))"
    using m by (simp add: uidRangeStringToQuery_def pair_not_single pair_not_list sp)
  have nn: "\<not> isNaN ?x" "\<not> isNaN ?y" using x y by (cases ?x; cases ?y; simp)+
  show ?thesis
  proof (cases "numLe ?x ?y")
    case True
    then have p: "jsSort [?x, ?y] = [?x, ?y]" using x y by (simp add: pair_parts)
    show ?thesis
      unfolding q p using True x y nn numLe_less [of ?x ?y]
      by (simp add: strictEq_iff)
  next
    case False
    then have p: "jsSort [?x, ?y] = [?y, ?x]" using x y by (simp add: pair_parts)
    from False have ne: "?x \<noteq> ?y" using numLe_total [OF x x] by auto
    from False have "numLess ?y ?x" using x y by (simp add: not_numLe_less)
    then have "\<not> numLess ?x ?y" by (rule numLess_asym)
    then show ?thesis
      unfolding q p using ne x y nn
      by (simp add: strictEq_iff)
  qed
qed

lemma star_query:
  assumes a: "isDigits a"
  shows "uidRangeStringToQuery (Some (a @ '':*'')) = Some (UidRange (Number a) None)"
proof -
  have sp: "split CHR '':'' (a @ CHR '':'' # ''*'') = [a, ''*'']" using a by (simp add: split_pair)
  have m: "matchesPair (a @ CHR '':'' # ''*'')" using a by (simp add: matchesPair_def sp)
  have c: "compareNumbers (Number a) NaN = 0" by (cases "Number a") auto
  have s: "\<not> strictEq (Number a) NaN" by (cases "Number a") auto
  show ?thesis
    using m c s
    by (simp add: uidRangeStringToQuery_def pair_not_single pair_not_list sp Number_star jsSort_def)
qed

subsection \<open>Comma lists\<close>

lemma insertSorted_count:
  "count_list (insertSorted x ys) z = count_list (x # ys) z"
  by (induction ys) auto

lemma jsSort_count: "count_list (jsSort xs) z = count_list xs z"
  by (induction xs) (simp_all add: jsSort_def insertSorted_count)

lemma insertSorted_set: "set (insertSorted x ys) = insert x (set ys)"
  by (induction ys) auto

lemma jsSort_set: "set (jsSort xs) = set xs"
  by (induction xs) (simp_all add: jsSort_def insertSorted_set)

lemma insertSorted_sorted:
  assumes "sorted_wrt numLe ys" "x \<noteq> NaN" "NaN \<notin> set ys"
  shows "sorted_wrt numLe (insertSorted x ys)"
  using assms
proof (induction ys)
  case Nil
  then show ?case by simp
next
  case (Cons y ys)
  then have y: "y \<noteq> NaN" by auto
  show ?case
  proof (cases "compareNumbers x y \<le> 0")
    case True
    then have xy: "numLe x y" using Cons.prems(2) y by (simp add: compare_le_iff)
    then have "\<forall>z \<in> set ys. numLe x z"
      using Cons.prems(1) numLe_trans by auto
    with True xy Cons.prems(1) show ?thesis by simp
  next
    case False
    then have "\<not> numLe x y" using Cons.prems(2) y by (simp add: compare_le_iff)
    then have yx: "numLe y x" using numLe_total [OF Cons.prems(2) y] by simp
    have "sorted_wrt numLe (insertSorted x ys)"
      using Cons by simp
    with False yx Cons.prems(1) show ?thesis
      by (simp add: insertSorted_set)
  qed
qed

lemma jsSort_sorted: "NaN \<notin> set xs \<Longrightarrow> sorted_wrt numLe (jsSort xs)"
proof (induction xs)
  case Nil
  then show ?case by (simp add: jsSort_def)
next
  case (Cons x xs)
  then have "sorted_wrt numLe (jsSort xs)" "x \<noteq> NaN" "NaN \<notin> set (jsSort xs)"
    by (auto simp: jsSort_set)
  then have "sorted_wrt numLe (insertSorted x (jsSort xs))" by (rule insertSorted_sorted)
  then show ?case by (simp add: jsSort_def)
qed

lemma list_query:
  assumes ds: "list_all isDigits ds" and len: "2 \<le> length ds"
  shows "\<exists>xs. uidRangeStringToQuery (Some (joinWith '','' ds)) = Some (UidIn xs)
     \<and> sorted_wrt numLe xs
     \<and> (\<forall>x. count_list xs x = count_list (map Number ds) x)"
proof -
  from len have ne: "ds \<noteq> []" by auto
  have sp: "split CHR '','' (joinWith '','' ds) = ds"
    using digits_no_comma [OF ds] ne by (rule split_join)
  from len obtain x y ys where xy: "ds = x # y # ys"
    by (cases ds; cases "tl ds") auto
  have comma: "CHR '','' \<in> set (joinWith '','' ds)"
    by (simp add: xy)
  have "\<not> matchesSingle (joinWith '','' ds)"
    using comma comma_not_digit by (auto simp: matchesSingle_def dest: isDigits_chars)
  moreover have "joinWith '','' ds \<noteq> []"
    using comma by auto
  moreover have "matchesList (joinWith '','' ds)"
    by (simp add: matchesList_def sp ds)
  ultimately have q: "uidRangeStringToQuery (Some (joinWith '','' ds)) =
      Some (UidIn (jsSort (map Number ds)))"
    by (simp add: uidRangeStringToQuery_def sp)
  have "NaN \<notin> set (map Number ds)"
    using ds Number_not_NaN by (fastforce simp: list_all_iff)
  then have "sorted_wrt numLe (jsSort (map Number ds))" by (rule jsSort_sorted)
  with q show ?thesis by (simp add: jsSort_count)
qed

subsection \<open>Bounds in order\<close>

lemma lowBelowHigh_all: "lowBelowHigh (uidRangeStringToQuery r)"
proof (cases r)
  case None
  then show ?thesis by (simp add: uidRangeStringToQuery_def lowBelowHigh_def)
next
  case (Some s)
  show ?thesis
  proof (cases "s \<noteq> [] \<and> \<not> matchesSingle s \<and> \<not> matchesList s \<and> matchesPair s")
    case False
    with Some show ?thesis
      by (auto simp: uidRangeStringToQuery_def lowBelowHigh_def)
  next
    case True
    then obtain a b where ab: "isDigits a" "isDigits b \<or> b = ''*''" "s = a @ '':'' @ b"
      by (auto simp: matchesPair_iff)
    from ab(2) show ?thesis
    proof
      assume b: "isDigits b"
      have x: "Number a \<noteq> NaN" using ab(1) by (rule Number_not_NaN)
      have y: "Number b \<noteq> NaN" using b by (rule Number_not_NaN)
      have "numLess (Number a) (Number b) \<or> numLess (Number b) (Number a) \<or> Number a = Number b"
        using x y by (cases "Number a"; cases "Number b") auto
      then show ?thesis
        unfolding Some ab(3) pair_query [OF ab(1) b]
        by (auto simp: lowBelowHigh_def)
    next
      assume "b = ''*''"
      then show ?thesis
        unfolding Some ab(3) using star_query [OF ab(1)] Number_not_NaN [OF ab(1)]
        by (cases "Number a") (auto simp: lowBelowHigh_def)
    qed
  qed
qed

subsection \<open>Rounding\<close>

lemma bitLength_eq: "2 ^ k \<le> n \<Longrightarrow> n < 2 ^ Suc k \<Longrightarrow> bitLength n = Suc k"
proof -
  assume a: "2 ^ k \<le> n" and b: "n < 2 ^ Suc k"
  from a have "\<not> bitLength n \<le> k" by (simp add: bitLength_le)
  moreover from b have "bitLength n \<le> Suc k" by (simp only: bitLength_le)
  ultimately show ?thesis by simp
qed

lemma bitLength_low: "n \<noteq> 0 \<Longrightarrow> 2 ^ (bitLength n - 1) \<le> n"
proof -
  assume n: "n \<noteq> 0"
  then have "bitLength n \<noteq> 0" by (simp add: bitLength.simps [of n])
  then have "\<not> bitLength n \<le> bitLength n - 1" by simp
  then show ?thesis by (simp only: bitLength_le not_less)
qed

lemma roundToDouble_huge:
  assumes "2 ^ 1024 \<le> n"
  shows "roundToDouble n = Infinity"
proof -
  let ?e = "bitLength n - 53"
  let ?q = "n div 2 ^ ?e"
  let ?r = "n mod 2 ^ ?e"
  let ?q1 = "if 2 ^ ?e < 2 * ?r \<or> (2 * ?r = 2 ^ ?e \<and> odd ?q) then ?q + 1 else ?q"
  from assms have big: "\<not> bitLength n \<le> 1024" by (simp add: bitLength_le)
  then have l53: "\<not> bitLength n \<le> 53" by simp
  from assms have n0: "n \<noteq> 0" by auto
  have "(2::nat) ^ 1024 \<le> 2 ^ (bitLength n - 1)"
    using big by (intro power_increasing) simp_all
  also have split: "(2::nat) ^ (bitLength n - 1) = 2 ^ 52 * 2 ^ ?e"
  proof -
    from big have "bitLength n - 1 = 52 + ?e" by simp
    then show ?thesis by (simp only: power_add)
  qed
  finally have lo: "(2::nat) ^ 1024 \<le> 2 ^ 52 * 2 ^ ?e" .
  have "(2::nat) ^ 52 * 2 ^ ?e \<le> n"
    using bitLength_low [OF n0] by (simp only: split)
  then have "(2::nat) ^ 52 \<le> ?q"
    by (simp add: less_eq_div_iff_mult_less_eq)
  then have "(2::nat) ^ 52 \<le> ?q1" by simp
  then have "(2::nat) ^ 52 * 2 ^ ?e \<le> ?q1 * 2 ^ ?e" by (rule mult_le_mono1)
  with lo have "2 ^ 1024 \<le> ?q1 * 2 ^ ?e" by (rule le_trans)
  then have "\<not> bitLength (?q1 * 2 ^ ?e) \<le> 1024" by (simp only: bitLength_le not_less)
  with l53 show ?thesis by (simp add: roundToDouble_def Let_def)
qed

lemma round_example_down: "roundToDouble 9007199254740993 = Num 9007199254740992"
proof -
  have bl: "bitLength 9007199254740993 = Suc 53" by (rule bitLength_eq) simp_all
  show ?thesis by (simp add: roundToDouble_def bl Let_def bitLength_le)
qed

lemma round_example_up: "roundToDouble 9007199254740995 = Num 9007199254740996"
proof -
  have bl: "bitLength 9007199254740995 = Suc 53" by (rule bitLength_eq) simp_all
  show ?thesis by (simp add: roundToDouble_def bl Let_def bitLength_le)
qed

lemma digits_example:
  "isDigits ''9007199254740992'' \<and> digitsValue ''9007199254740992'' = 9007199254740992
   \<and> isDigits ''9007199254740993'' \<and> digitsValue ''9007199254740993'' = 9007199254740993"
  by (simp add: isDigits_def isDigit_def digitsValue_def)

lemma Number_example:
  "Number ''9007199254740992'' = Num 9007199254740992
   \<and> Number ''9007199254740993'' = Num 9007199254740992"
proof -
  have bl: "bitLength 9007199254740992 = Suc 53" by (rule bitLength_eq) simp_all
  have "roundToDouble 9007199254740992 = Num 9007199254740992"
    by (simp add: roundToDouble_def bl Let_def bitLength_le)
  then show ?thesis
    using digits_example round_example_down by (simp add: Number_def)
qed

subsection \<open>The claim\<close>

text \<open>
  Claim C3. \<open>uidRangeStringToQuery\<close> maps \<open>"5"\<close> to the equality constraint 5,
  \<open>"5,3,10"\<close> to the member-of constraint over \<open>[3, 5, 10]\<close> (sorted ascending,
  duplicates kept), \<open>"5:10"\<close> to the range from 5 to 10, \<open>"5:*"\<close> to the range from 5
  with no upper bound, \<open>"7:7"\<close> to the equality constraint 7, and \<open>"abc"\<close> to no
  constraint; two bounds that round to the same double collapse as well. No input, the
  empty string, and exactly the strings that are neither a digit string, nor digit
  strings joined by commas, nor a digit string, a colon and a digit string or a star, give
  no constraint. Whatever the input, a range with two bounds has its low bound below its
  high bound. With \<open>Number\<close> the double of a digit string, which is its decimal value
  below \<open>2^53\<close> and never \<open>NaN\<close>: a digit string gives the equality constraint on its
  number; a colon pair of digit strings gives the equality constraint when the two
  numbers are equal and otherwise the range from the smaller to the larger number; a
  digit string, a colon and a star give the range from its number with no upper bound; a
  list of two or more digit strings gives the member-of constraint over their numbers in
  ascending order, each as often as it is listed.
\<close>

theorem uidRangeStringToQuery_grammar:
  "uidRangeStringToQuery (Some ''5'') = Some (UidEq (Num 5))
   \<and> uidRangeStringToQuery (Some ''5,3,10'') = Some (UidIn [Num 3, Num 5, Num 10])
   \<and> uidRangeStringToQuery (Some ''5,3,5'') = Some (UidIn [Num 3, Num 5, Num 5])
   \<and> uidRangeStringToQuery (Some ''5:10'') = Some (UidRange (Num 5) (Some (Num 10)))
   \<and> uidRangeStringToQuery (Some ''5:*'') = Some (UidRange (Num 5) None)
   \<and> uidRangeStringToQuery (Some ''7:7'') = Some (UidEq (Num 7))
   \<and> uidRangeStringToQuery (Some ''abc'') = None
   \<and> uidRangeStringToQuery (Some ''9007199254740992:9007199254740993'') =
        Some (UidEq (Num 9007199254740992))
   \<and> uidRangeStringToQuery None = None
   \<and> uidRangeStringToQuery (Some []) = None
   \<and> (uidRangeStringToQuery (Some s) = None \<longleftrightarrow>
        \<not> (isDigits s
           \<or> (\<exists>ds. ds \<noteq> [] \<and> list_all isDigits ds \<and> s = joinWith '','' ds)
           \<or> (\<exists>a b. isDigits a \<and> (isDigits b \<or> b = ''*'') \<and> s = a @ '':'' @ b)))
   \<and> lowBelowHigh (uidRangeStringToQuery r)
   \<and> (isDigits a \<longrightarrow>
        uidRangeStringToQuery (Some a) = Some (UidEq (Number a))
        \<and> Number a \<noteq> NaN
        \<and> (digitsValue a < 2 ^ 53 \<longrightarrow> Number a = Num (digitsValue a)))
   \<and> (isDigits a \<and> isDigits b \<longrightarrow>
        uidRangeStringToQuery (Some (a @ '':'' @ b)) =
          Some (if Number a = Number b then UidEq (Number a)
                else if numLess (Number a) (Number b)
                  then UidRange (Number a) (Some (Number b))
                  else UidRange (Number b) (Some (Number a))))
   \<and> (isDigits a \<longrightarrow>
        uidRangeStringToQuery (Some (a @ '':*'')) = Some (UidRange (Number a) None))
   \<and> (list_all isDigits ds \<and> 2 \<le> length ds \<longrightarrow>
        (\<exists>xs. uidRangeStringToQuery (Some (joinWith '','' ds)) = Some (UidIn xs)
           \<and> sorted_wrt numLe xs
           \<and> (\<forall>x. count_list xs x = count_list (map Number ds) x)))"
proof (intro conjI impI)
  show "uidRangeStringToQuery (Some ''5'') = Some (UidEq (Num 5))" by code_simp
  show "uidRangeStringToQuery (Some ''5,3,10'') = Some (UidIn [Num 3, Num 5, Num 10])" by code_simp
  show "uidRangeStringToQuery (Some ''5,3,5'') = Some (UidIn [Num 3, Num 5, Num 5])" by code_simp
  show "uidRangeStringToQuery (Some ''5:10'') = Some (UidRange (Num 5) (Some (Num 10)))" by code_simp
  show "uidRangeStringToQuery (Some ''5:*'') = Some (UidRange (Num 5) None)" by code_simp
  show "uidRangeStringToQuery (Some ''7:7'') = Some (UidEq (Num 7))" by code_simp
  show "uidRangeStringToQuery (Some ''abc'') = None" by code_simp
  show "uidRangeStringToQuery (Some ''9007199254740992:9007199254740993'') =
        Some (UidEq (Num 9007199254740992))"
    using pair_query [of "''9007199254740992''" "''9007199254740993''"]
      digits_example Number_example
    by simp
  show "uidRangeStringToQuery None = None" by (simp add: uidRangeStringToQuery_def)
  show "uidRangeStringToQuery (Some []) = None" by (simp add: uidRangeStringToQuery_def)
  show "uidRangeStringToQuery (Some s) = None \<longleftrightarrow>
        \<not> (isDigits s
           \<or> (\<exists>ds. ds \<noteq> [] \<and> list_all isDigits ds \<and> s = joinWith '','' ds)
           \<or> (\<exists>a b. isDigits a \<and> (isDigits b \<or> b = ''*'') \<and> s = a @ '':'' @ b))"
    unfolding query_None_iff matchesList_iff matchesPair_iff matchesSingle_def ..
  show "lowBelowHigh (uidRangeStringToQuery r)" by (rule lowBelowHigh_all)
next
  assume "isDigits a"
  then show "uidRangeStringToQuery (Some a) = Some (UidEq (Number a))"
    by (auto simp: uidRangeStringToQuery_def matchesSingle_def isDigits_def)
next
  assume "isDigits a"
  then show "Number a \<noteq> NaN" by (rule Number_not_NaN)
next
  assume "isDigits a" "digitsValue a < 2 ^ 53"
  then show "Number a = Num (digitsValue a)"
    by (simp add: Number_def roundToDouble_small)
next
  assume "isDigits a \<and> isDigits b"
  then show "uidRangeStringToQuery (Some (a @ '':'' @ b)) =
          Some (if Number a = Number b then UidEq (Number a)
                else if numLess (Number a) (Number b)
                  then UidRange (Number a) (Some (Number b))
                  else UidRange (Number b) (Some (Number a)))"
    using pair_query by blast
next
  assume "isDigits a"
  then show "uidRangeStringToQuery (Some (a @ '':*'')) = Some (UidRange (Number a) None)"
    by (rule star_query)
next
  assume "list_all isDigits ds \<and> 2 \<le> length ds"
  then show "\<exists>xs. uidRangeStringToQuery (Some (joinWith '','' ds)) = Some (UidIn xs)
           \<and> sorted_wrt numLe xs
           \<and> (\<forall>x. count_list xs x = count_list (map Number ds) x)"
    using list_query by blast
qed

theorem uidRangeStringToQuery_grammar_witness:
  "isDigits ''10'' \<and> isDigits ''5'' \<and> digitsValue ''10'' < 2 ^ 53
   \<and> Number ''10'' = Num 10
   \<and> uidRangeStringToQuery (Some ''10'') = Some (UidEq (Num 10))
   \<and> uidRangeStringToQuery (Some ''10:5'') = Some (UidRange (Num 5) (Some (Num 10)))
   \<and> uidRangeStringToQuery (Some ''10:*'') = Some (UidRange (Num 10) None)
   \<and> list_all isDigits [''9'', ''10'', ''9'']
   \<and> (\<exists>xs. uidRangeStringToQuery (Some ''9,10,9'') = Some (UidIn xs)
         \<and> sorted_wrt numLe xs
         \<and> (\<forall>x. count_list xs x = count_list [Num 9, Num 10, Num 9] x))"
proof -
  have d: "isDigits ''10'' \<and> isDigits ''5''" by code_simp
  have l: "list_all isDigits [''9'', ''10'', ''9''] \<and> 2 \<le> length [''9'', ''10'', ''9'']" by code_simp
  have v: "digitsValue ''10'' = 10" "Number ''10'' = Num 10" "Number ''5'' = Num 5"
    "Number ''9'' = Num 9" by code_simp+
  show ?thesis
    using d l uidRangeStringToQuery_grammar [of "''5;6''" "Some ''10:5''" "''10''" "''5''" "[''9'', ''10'', ''9'']"]
    by (simp add: v)
qed


section \<open>The filter compiler: claims C1, C2, C4, C5\<close>

subsection \<open>What each step leaves alone\<close>

lemmas step_defs =
  stepUid_def stepThread_def stepFlagged_def stepSeen_def stepUnseen_def stepSearchable_def
  stepDatestart_def stepDateend_def stepFrom_def stepOrFrom_def stepTo_def stepOrTo_def
  stepSubject_def stepOrSubject_def stepAttachments_def stepMinSize_def stepMaxSize_def
  stepOr_def pushAnd_def

lemma steps_keep_mailbox:
  "f_mailbox (fst (stepThread p st)) = f_mailbox (fst st)"
  "f_mailbox (fst (stepFlagged p st)) = f_mailbox (fst st)"
  "f_mailbox (fst (stepSeen p st)) = f_mailbox (fst st)"
  "f_mailbox (fst (stepUnseen p st)) = f_mailbox (fst st)"
  "f_mailbox (fst (stepSearchable p st)) = f_mailbox (fst st)"
  "f_mailbox (fst (stepDatestart p st)) = f_mailbox (fst st)"
  "f_mailbox (fst (stepDateend p st)) = f_mailbox (fst st)"
  "f_mailbox (fst (stepFrom esc p st)) = f_mailbox (fst st)"
  "f_mailbox (fst (stepOrFrom esc p st)) = f_mailbox (fst st)"
  "f_mailbox (fst (stepTo esc p st)) = f_mailbox (fst st)"
  "f_mailbox (fst (stepOrTo esc p st)) = f_mailbox (fst st)"
  "f_mailbox (fst (stepSubject esc p st)) = f_mailbox (fst st)"
  "f_mailbox (fst (stepOrSubject esc p st)) = f_mailbox (fst st)"
  "f_mailbox (fst (stepAttachments p st)) = f_mailbox (fst st)"
  "f_mailbox (fst (stepMinSize p st)) = f_mailbox (fst st)"
  "f_mailbox (fst (stepMaxSize p st)) = f_mailbox (fst st)"
  "f_mailbox (fst (stepOr st)) = f_mailbox (fst st)"
  "f_mailbox (fst (stepUid p st)) = f_mailbox (fst st)"
  by (cases st; simp add: step_defs Let_def split: option.splits)+

lemma afterMailbox_mailbox:
  "f_mailbox (fst (afterMailbox esc p st)) = f_mailbox (fst st)"
  by (simp add: afterMailbox_def steps_keep_mailbox)

lemma stepQuery_mailbox: "f_mailbox (fst (stepQuery p st)) = f_mailbox (fst st)"
  by (cases st) (simp add: stepQuery_def)

lemma steps_unseen:
  "f_unseen (fst (stepSearchable p st)) = f_unseen (fst st)"
  "f_unseen (fst (stepDatestart p st)) = f_unseen (fst st)"
  "f_unseen (fst (stepDateend p st)) = f_unseen (fst st)"
  "f_unseen (fst (stepFrom esc p st)) = f_unseen (fst st)"
  "f_unseen (fst (stepOrFrom esc p st)) = f_unseen (fst st)"
  "f_unseen (fst (stepTo esc p st)) = f_unseen (fst st)"
  "f_unseen (fst (stepOrTo esc p st)) = f_unseen (fst st)"
  "f_unseen (fst (stepSubject esc p st)) = f_unseen (fst st)"
  "f_unseen (fst (stepOrSubject esc p st)) = f_unseen (fst st)"
  "f_unseen (fst (stepAttachments p st)) = f_unseen (fst st)"
  "f_unseen (fst (stepMinSize p st)) = f_unseen (fst st)"
  "f_unseen (fst (stepMaxSize p st)) = f_unseen (fst st)"
  "f_unseen (fst (stepOr st)) = f_unseen (fst st)"
  "f_unseen (fst (stepUnseen p st)) = (if p_unseen p then Some True else f_unseen (fst st))"
  by (cases st; simp add: step_defs Let_def split: option.splits)+

lemma steps_searchable:
  "f_searchable (fst (stepSearchable p st)) =
     (if p_searchable p then Some True else f_searchable (fst st))"
  "f_searchable (fst (stepDatestart p st)) = f_searchable (fst st)"
  "f_searchable (fst (stepDateend p st)) = f_searchable (fst st)"
  "f_searchable (fst (stepFrom esc p st)) = f_searchable (fst st)"
  "f_searchable (fst (stepOrFrom esc p st)) = f_searchable (fst st)"
  "f_searchable (fst (stepTo esc p st)) = f_searchable (fst st)"
  "f_searchable (fst (stepOrTo esc p st)) = f_searchable (fst st)"
  "f_searchable (fst (stepSubject esc p st)) = f_searchable (fst st)"
  "f_searchable (fst (stepOrSubject esc p st)) = f_searchable (fst st)"
  "f_searchable (fst (stepAttachments p st)) = f_searchable (fst st)"
  "f_searchable (fst (stepMinSize p st)) = f_searchable (fst st)"
  "f_searchable (fst (stepMaxSize p st)) = f_searchable (fst st)"
  "f_searchable (fst (stepOr st)) = f_searchable (fst st)"
  "f_searchable (fst (stepUnseen p st)) =
     (if p_unseen p then Some True else f_searchable (fst st))"
  by (cases st; simp add: step_defs Let_def split: option.splits)+

lemma afterMailbox_unseen:
  "p_unseen p \<Longrightarrow> f_unseen (fst (afterMailbox esc p st)) = Some True"
  by (simp add: afterMailbox_def steps_unseen)

lemma afterMailbox_searchable:
  "p_unseen p \<Longrightarrow> f_searchable (fst (afterMailbox esc p st)) = Some True"
  by (simp add: afterMailbox_def steps_searchable)

lemma steps_uid:
  "f_uid (fst (stepThread p st)) = f_uid (fst st)"
  "f_uid (fst (stepFlagged p st)) = f_uid (fst st)"
  "f_uid (fst (stepSeen p st)) = f_uid (fst st)"
  "f_uid (fst (stepUnseen p st)) = f_uid (fst st)"
  "f_uid (fst (stepSearchable p st)) = f_uid (fst st)"
  "f_uid (fst (stepDatestart p st)) = f_uid (fst st)"
  "f_uid (fst (stepDateend p st)) = f_uid (fst st)"
  "f_uid (fst (stepFrom esc p st)) = f_uid (fst st)"
  "f_uid (fst (stepOrFrom esc p st)) = f_uid (fst st)"
  "f_uid (fst (stepTo esc p st)) = f_uid (fst st)"
  "f_uid (fst (stepOrTo esc p st)) = f_uid (fst st)"
  "f_uid (fst (stepSubject esc p st)) = f_uid (fst st)"
  "f_uid (fst (stepOrSubject esc p st)) = f_uid (fst st)"
  "f_uid (fst (stepAttachments p st)) = f_uid (fst st)"
  "f_uid (fst (stepMinSize p st)) = f_uid (fst st)"
  "f_uid (fst (stepMaxSize p st)) = f_uid (fst st)"
  "f_uid (fst (stepOr st)) = f_uid (fst st)"
  by (cases st; simp add: step_defs Let_def split: option.splits)+

lemma stepUid_uid:
  "f_uid (fst (stepUid p st)) =
     (if f_mailbox (fst st) \<noteq> None \<and> truthyUid (uidRangeStringToQuery (p_id p))
      then uidRangeStringToQuery (p_id p) else f_uid (fst st))"
  by (cases st) (simp add: stepUid_def Let_def)

lemma afterMailbox_uid:
  "f_uid (fst (afterMailbox esc p st)) =
     (if f_mailbox (fst st) \<noteq> None \<and> truthyUid (uidRangeStringToQuery (p_id p))
      then uidRangeStringToQuery (p_id p) else f_uid (fst st))"
  by (simp add: afterMailbox_def steps_uid stepUid_uid)

lemma stepQuery_fields:
  "f_mailbox (fst (stepQuery p st)) = f_mailbox (fst st)"
  "f_uid (fst (stepQuery p st)) = f_uid (fst st)"
  "f_and (fst (stepQuery p st)) = f_and (fst st)"
  by (cases st; simp add: stepQuery_def)+

lemma stepMailbox_fields:
  assumes "stepMailbox d user p st = Inr st'"
  shows "f_uid (fst st') = f_uid (fst st)" "f_and (fst st') = f_and (fst st)"
  using assms
  by (cases st; auto simp: stepMailbox_def Let_def split: if_splits sum.splits)+

lemma stepMailbox_explicit:
  "truthyStr (p_mailbox p) \<Longrightarrow>
   stepMailbox d user p st =
     Inr ((fst st)\<lparr> f_mailbox := Some (MailboxIs (ObjectId (the (p_mailbox p)))) \<rparr>, snd st)"
  by (cases st) (simp add: stepMailbox_def)

lemma stepMailbox_none:
  "\<not> truthyStr (p_mailbox p) \<Longrightarrow> \<not> p_searchable p \<Longrightarrow> stepMailbox d user p st = Inr st"
  by (cases st) (simp add: stepMailbox_def)

lemma stepMailbox_inclusion:
  "\<not> truthyStr (p_mailbox p) \<Longrightarrow> p_searchable p \<Longrightarrow>
   mailboxesCount d user = Inr n \<Longrightarrow> 0 < n \<Longrightarrow> n < 200 \<Longrightarrow>
   stepMailbox d user p st =
     (case mailboxesOther d user of
        Inr ids \<Rightarrow> Inr ((fst st)\<lparr> f_mailbox := Some (MailboxIn ids) \<rparr>, snd st)
      | Inl x \<Rightarrow> Inl InternalDatabaseError)"
  by (cases st) (simp add: stepMailbox_def split: sum.splits)

lemma stepMailbox_exclusion:
  "\<not> truthyStr (p_mailbox p) \<Longrightarrow> p_searchable p \<Longrightarrow>
   mailboxesCount d user = Inl x \<or> mailboxesCount d user = Inr 0
     \<or> (\<exists>n. mailboxesCount d user = Inr n \<and> 200 \<le> n) \<Longrightarrow>
   stepMailbox d user p st =
     (case mailboxesJunkTrash d user of
        Inr ids \<Rightarrow> Inr ((fst st)\<lparr> f_mailbox := Some (MailboxNin ids) \<rparr>, snd st)
      | Inl y \<Rightarrow> Inl InternalDatabaseError)"
  by (cases st) (auto simp: stepMailbox_def split: sum.splits)

lemma prepare_found:
  "usersFindOne d user = Inr (Some ud) \<Longrightarrow>
   prepareSearchFilter esc d user p =
     (case stepMailbox d user p (stepQuery p (baseFilter user, [])) of
        Inl err \<Rightarrow> Inl err
      | Inr st \<Rightarrow> Inr (fst (afterMailbox esc p st), p_query p))"
  by (simp add: prepareSearchFilter_def)

lemma prepare_Inr_D:
  assumes "prepareSearchFilter esc d user p = Inr (flt, q)"
  obtains st where "stepMailbox d user p (stepQuery p (baseFilter user, [])) = Inr st"
    and "flt = fst (afterMailbox esc p st)" and "q = p_query p"
  using assms
  by (auto simp: prepareSearchFilter_def split: sum.splits option.splits)

lemma prepare_returns:
  assumes "usersFindOne d user = Inr (Some ud)"
    and "truthyStr (p_mailbox p) \<or> \<not> p_searchable p
         \<or> (\<exists>a b. mailboxesOther d user = Inr a \<and> mailboxesJunkTrash d user = Inr b)"
  shows "\<exists>flt. prepareSearchFilter esc d user p = Inr (flt, p_query p)"
proof -
  obtain st0 where st0: "stepQuery p (baseFilter user, []) = st0" by simp
  have "\<exists>st. stepMailbox d user p st0 = Inr st"
    using assms(2)
    by (cases st0) (auto simp: stepMailbox_def Let_def split: sum.splits)
  then show ?thesis
    by (auto simp: prepare_found [OF assms(1)] st0)
qed

lemma prepare_uid_needs_mailbox:
  assumes "prepareSearchFilter esc d user p = Inr (flt, q)" "f_uid flt \<noteq> None"
  shows "f_mailbox flt \<noteq> None"
proof -
  from assms(1) obtain st where st: "stepMailbox d user p (stepQuery p (baseFilter user, [])) = Inr st"
    and flt: "flt = fst (afterMailbox esc p st)"
    by (rule prepare_Inr_D)
  have "f_uid (fst st) = None"
    using stepMailbox_fields(1) [OF st] by (simp add: stepQuery_fields baseFilter_def)
  with assms(2) show ?thesis
    unfolding flt by (auto simp: afterMailbox_uid afterMailbox_mailbox split: if_splits)
qed

lemma storage_simps:
  "usersFindOne (storage c other junk) u = Inr (Some \<lparr> username = ''ann'', address = ''ann@x.com'' \<rparr>)"
  "mailboxesCount (storage c other junk) u = c"
  "mailboxesOther (storage c other junk) u = other"
  "mailboxesJunkTrash (storage c other junk) u = junk"
  by (simp_all add: storage_def)

lemma searchablePayload_simps:
  "\<not> truthyStr (p_mailbox searchablePayload)" "p_searchable searchablePayload"
  "p_query searchablePayload = None"
  by (simp_all add: searchablePayload_def emptyPayload_def)

subsection \<open>Failures during mailbox scope resolution\<close>

text \<open>
  Claim C1, as stated, fails: with the owner found, no explicit mailbox and the
  \<open>searchable\<close> flag set, a failed mailbox listing makes \<open>prepareSearchFilter\<close> throw
  \<open>InternalDatabaseError\<close>, both when the count succeeded (here 5) and when the count
  failed as well.
\<close>

theorem listing_failure_aborts_compilation:
  "prepareSearchFilter id (storage (Inr 5) (Inl StorageFailure) (Inr junkIds)) user0
     searchablePayload = Inl InternalDatabaseError
   \<and> prepareSearchFilter id (storage (Inl StorageFailure) (Inr otherIds) (Inl StorageFailure)) user0
     searchablePayload = Inl InternalDatabaseError"
  by code_simp

text \<open>
  Claim C1, amended. For every payload that triggers mailbox scope resolution, with the
  owner found: a failed count alone never fails the compiler, which then fetches the
  Junk/Trash listing and, when that fetch succeeds, returns a filter with the exclusion
  scope; a failure of the listing the compiler fetches (the other mailboxes for a count
  from 1 to 199, the Junk/Trash mailboxes otherwise) is thrown as
  \<open>InternalDatabaseError\<close>.
\<close>

theorem count_failure_falls_back_listing_failure_aborts:
  assumes found: "usersFindOne d user = Inr (Some ud)"
    and scope: "\<not> truthyStr (p_mailbox p)" "p_searchable p"
  shows "(mailboxesCount d user = Inl cf \<longrightarrow> mailboxesJunkTrash d user = Inr ids \<longrightarrow>
            (\<exists>flt. prepareSearchFilter esc d user p = Inr (flt, p_query p)
               \<and> f_mailbox flt = Some (MailboxNin ids)))
       \<and> (mailboxesCount d user = Inl cf \<longrightarrow> mailboxesJunkTrash d user = Inl lf \<longrightarrow>
            prepareSearchFilter esc d user p = Inl InternalDatabaseError)
       \<and> (mailboxesCount d user = Inr n \<longrightarrow> 0 < n \<longrightarrow> n < 200 \<longrightarrow>
            mailboxesOther d user = Inl lf \<longrightarrow>
            prepareSearchFilter esc d user p = Inl InternalDatabaseError)
       \<and> (mailboxesCount d user = Inr n \<longrightarrow> n = 0 \<or> 200 \<le> n \<longrightarrow>
            mailboxesJunkTrash d user = Inl lf \<longrightarrow>
            prepareSearchFilter esc d user p = Inl InternalDatabaseError)"
proof (intro conjI impI)
  assume "mailboxesCount d user = Inl cf" "mailboxesJunkTrash d user = Inr ids"
  then show "\<exists>flt. prepareSearchFilter esc d user p = Inr (flt, p_query p)
               \<and> f_mailbox flt = Some (MailboxNin ids)"
    using scope by (simp add: prepare_found [OF found] stepMailbox_exclusion afterMailbox_mailbox)
next
  assume "mailboxesCount d user = Inl cf" "mailboxesJunkTrash d user = Inl lf"
  then show "prepareSearchFilter esc d user p = Inl InternalDatabaseError"
    using scope by (simp add: prepare_found [OF found] stepMailbox_exclusion)
next
  assume "mailboxesCount d user = Inr n" "0 < n" "n < 200" "mailboxesOther d user = Inl lf"
  then show "prepareSearchFilter esc d user p = Inl InternalDatabaseError"
    using scope by (simp add: prepare_found [OF found] stepMailbox_inclusion)
next
  assume "mailboxesCount d user = Inr n" "n = 0 \<or> 200 \<le> n" "mailboxesJunkTrash d user = Inl lf"
  then show "prepareSearchFilter esc d user p = Inl InternalDatabaseError"
    using scope by (auto simp: prepare_found [OF found] stepMailbox_exclusion)
qed

theorem count_failure_falls_back_listing_failure_aborts_witness:
  "(\<exists>flt. prepareSearchFilter id (storage (Inl StorageFailure) (Inr otherIds) (Inr junkIds))
            user0 searchablePayload = Inr (flt, None)
          \<and> f_mailbox flt = Some (MailboxNin junkIds))
   \<and> prepareSearchFilter id (storage (Inl StorageFailure) (Inr otherIds) (Inl StorageFailure))
        user0 searchablePayload = Inl InternalDatabaseError
   \<and> prepareSearchFilter id (storage (Inr 150) (Inl StorageFailure) (Inr junkIds))
        user0 searchablePayload = Inl InternalDatabaseError
   \<and> prepareSearchFilter id (storage (Inr 250) (Inr otherIds) (Inl StorageFailure))
        user0 searchablePayload = Inl InternalDatabaseError"
  using
    count_failure_falls_back_listing_failure_aborts [where d = "storage (Inl StorageFailure) (Inr otherIds) (Inr junkIds)"
      and user = user0 and p = searchablePayload and esc = id and cf = StorageFailure
      and ids = junkIds]
    count_failure_falls_back_listing_failure_aborts [where d = "storage (Inl StorageFailure) (Inr otherIds) (Inl StorageFailure)"
      and user = user0 and p = searchablePayload and esc = id and cf = StorageFailure
      and lf = StorageFailure]
    count_failure_falls_back_listing_failure_aborts [where d = "storage (Inr 150) (Inl StorageFailure) (Inr junkIds)"
      and user = user0 and p = searchablePayload and esc = id and n = 150
      and lf = StorageFailure]
    count_failure_falls_back_listing_failure_aborts [where d = "storage (Inr 250) (Inr otherIds) (Inl StorageFailure)"
      and user = user0 and p = searchablePayload and esc = id and n = 250
      and lf = StorageFailure]
  by (simp add: storage_simps searchablePayload_simps)

subsection \<open>The scope strategy\<close>

text \<open>
  Claim C2, as stated, fails at the count 0, which is known and below 200: the guard
  \<open>count && count < 200\<close> is false for 0 and the compiler uses the exclusion scope.
\<close>

theorem zero_count_uses_exclusion:
  "prepareSearchFilter id (storage (Inr 0) (Inr []) (Inr junkIds)) user0
     searchablePayload =
   Inr ((baseFilter user0)\<lparr> f_searchable := Some True, f_mailbox := Some (MailboxNin junkIds) \<rparr>,
        None)"
  by code_simp

text \<open>
  Claim C2, amended. With the owner found, no explicit mailbox, the \<open>searchable\<close> flag
  set and both listings available: a known count from 1 to 199 gives the inclusion scope
  over the mailboxes that are neither Junk nor Trash; a count of 0, a count of 200 or
  more, and a failed count give the exclusion scope over the Junk and Trash mailboxes.
  In particular 150 gives inclusion, 250 exclusion, and an unknown count exclusion.
\<close>

theorem scope_strategy_by_count:
  assumes found: "usersFindOne d user = Inr (Some ud)"
    and scope: "\<not> truthyStr (p_mailbox p)" "p_searchable p"
    and lists: "mailboxesOther d user = Inr others" "mailboxesJunkTrash d user = Inr junk"
  shows "\<exists>flt. prepareSearchFilter esc d user p = Inr (flt, p_query p) \<and>
           f_mailbox flt =
             (case mailboxesCount d user of
                Inr n \<Rightarrow> if 0 < n \<and> n < 200 then Some (MailboxIn others)
                         else Some (MailboxNin junk)
              | Inl x \<Rightarrow> Some (MailboxNin junk))"
proof (cases "mailboxesCount d user")
  case (Inl x)
  then show ?thesis
    using scope lists
    by (simp add: prepare_found [OF found] stepMailbox_exclusion afterMailbox_mailbox)
next
  case (Inr n)
  show ?thesis
  proof (cases "0 < n \<and> n < 200")
    case True
    with Inr show ?thesis
      using scope lists
      by (simp add: prepare_found [OF found] stepMailbox_inclusion afterMailbox_mailbox)
  next
    case False
    then have "n = 0 \<or> 200 \<le> n" by auto
    with Inr False show ?thesis
      using scope lists
      by (auto simp: prepare_found [OF found] stepMailbox_exclusion afterMailbox_mailbox)
  qed
qed


theorem scope_strategy_by_count_witness:
  "(\<exists>flt. prepareSearchFilter id (storage (Inr 150) (Inr otherIds) (Inr junkIds))
            user0 searchablePayload = Inr (flt, None)
          \<and> f_mailbox flt = Some (MailboxIn otherIds))
   \<and> (\<exists>flt. prepareSearchFilter id (storage (Inr 250) (Inr otherIds) (Inr junkIds))
            user0 searchablePayload = Inr (flt, None)
          \<and> f_mailbox flt = Some (MailboxNin junkIds))
   \<and> (\<exists>flt. prepareSearchFilter id (storage (Inl StorageFailure) (Inr otherIds) (Inr junkIds))
            user0 searchablePayload = Inr (flt, None)
          \<and> f_mailbox flt = Some (MailboxNin junkIds))"
  using
    scope_strategy_by_count [where d = "storage (Inr 150) (Inr otherIds) (Inr junkIds)"
      and user = user0 and p = searchablePayload and esc = id
      and others = otherIds and junk = junkIds]
    scope_strategy_by_count [where d = "storage (Inr 250) (Inr otherIds) (Inr junkIds)"
      and user = user0 and p = searchablePayload and esc = id
      and others = otherIds and junk = junkIds]
    scope_strategy_by_count [where d = "storage (Inl StorageFailure) (Inr otherIds) (Inr junkIds)"
      and user = user0 and p = searchablePayload and esc = id
      and others = otherIds and junk = junkIds]
  by (simp add: storage_simps searchablePayload_simps)

subsection \<open>Seen and unseen\<close>

text \<open>
  Claim C4. For every payload with both \<open>seen\<close> and \<open>unseen\<close> set, every filter the
  compiler returns has \<open>unseen = true\<close> (so not \<open>unseen = false\<close>, the setting derived
  from \<open>seen\<close>) and \<open>searchable = true\<close>; and the compiler does return a filter when the
  owner is found and the mailbox scope needs no listing or the listings succeed.
\<close>

theorem unseen_overrides_seen:
  assumes "p_seen p" "p_unseen p"
  shows "(prepareSearchFilter esc d user p = Inr (flt, q) \<longrightarrow>
            f_unseen flt = Some True \<and> f_unseen flt \<noteq> Some False \<and> f_searchable flt = Some True)
       \<and> (usersFindOne d user = Inr (Some ud) \<longrightarrow>
            (truthyStr (p_mailbox p) \<or> \<not> p_searchable p
             \<or> (\<exists>a b. mailboxesOther d user = Inr a \<and> mailboxesJunkTrash d user = Inr b)) \<longrightarrow>
            (\<exists>flt'. prepareSearchFilter esc d user p = Inr (flt', p_query p)))"
proof (intro conjI impI)
  assume r: "prepareSearchFilter esc d user p = Inr (flt, q)"
  then obtain st where "flt = fst (afterMailbox esc p st)"
    by (rule prepare_Inr_D)
  with assms show "f_unseen flt = Some True" "f_unseen flt \<noteq> Some False" "f_searchable flt = Some True"
    by (simp_all add: afterMailbox_unseen afterMailbox_searchable)
next
  assume "usersFindOne d user = Inr (Some ud)"
    "truthyStr (p_mailbox p) \<or> \<not> p_searchable p
      \<or> (\<exists>a b. mailboxesOther d user = Inr a \<and> mailboxesJunkTrash d user = Inr b)"
  then show "\<exists>flt'. prepareSearchFilter esc d user p = Inr (flt', p_query p)"
    by (rule prepare_returns)
qed

theorem unseen_overrides_seen_witness:
  "p_seen seenUnseenPayload \<and> p_unseen seenUnseenPayload
   \<and> prepareSearchFilter id (storage (Inr 150) (Inr otherIds) (Inr junkIds)) user0
        seenUnseenPayload = Inr (seenUnseenFilter, None)
   \<and> f_unseen seenUnseenFilter = Some True \<and> f_searchable seenUnseenFilter = Some True"
proof -
  have flags: "p_seen seenUnseenPayload" "p_unseen seenUnseenPayload"
    by (simp_all add: seenUnseenPayload_def)
  have run: "prepareSearchFilter id (storage (Inr 150) (Inr otherIds) (Inr junkIds)) user0
        seenUnseenPayload = Inr (seenUnseenFilter, None)"
    by code_simp
  show ?thesis
    using flags run unseen_overrides_seen [OF flags, where esc = id and user = user0
        and d = "storage (Inr 150) (Inr otherIds) (Inr junkIds)"
        and flt = seenUnseenFilter and q = None]
    by simp
qed

subsection \<open>The id range needs a mailbox scope\<close>

text \<open>
  Claim C5. For every payload with neither an explicit mailbox nor the \<open>searchable\<close>
  flag, and an owner that is found, the compiler returns a filter with no \<open>uid\<close>
  predicate (and no mailbox scope), whatever id range the payload supplies; and every
  filter the compiler returns with a \<open>uid\<close> predicate has a mailbox scope.
\<close>

theorem no_uid_without_mailbox_scope:
  assumes found: "usersFindOne d user = Inr (Some ud)"
  shows "(\<not> truthyStr (p_mailbox p) \<and> \<not> p_searchable p \<longrightarrow>
            (\<exists>flt. prepareSearchFilter esc d user p = Inr (flt, p_query p)
               \<and> f_uid flt = None \<and> f_mailbox flt = None))
       \<and> (prepareSearchFilter esc d user p = Inr (flt', q) \<and> f_uid flt' \<noteq> None \<longrightarrow>
            f_mailbox flt' \<noteq> None)"
proof (intro conjI impI)
  assume "\<not> truthyStr (p_mailbox p) \<and> \<not> p_searchable p"
  then show "\<exists>flt. prepareSearchFilter esc d user p = Inr (flt, p_query p)
               \<and> f_uid flt = None \<and> f_mailbox flt = None"
    by (simp add: prepare_found [OF found] stepMailbox_none afterMailbox_uid
        afterMailbox_mailbox stepQuery_fields baseFilter_def)
next
  assume "prepareSearchFilter esc d user p = Inr (flt', q) \<and> f_uid flt' \<noteq> None"
  then show "f_mailbox flt' \<noteq> None"
    using prepare_uid_needs_mailbox by blast
qed

theorem no_uid_without_mailbox_scope_witness:
  "\<not> truthyStr (p_mailbox idOnlyPayload) \<and> \<not> p_searchable idOnlyPayload
   \<and> uidRangeStringToQuery (p_id idOnlyPayload) = Some (UidRange (Num 5) (Some (Num 10)))
   \<and> (\<exists>flt. prepareSearchFilter id (storage (Inr 150) (Inr otherIds) (Inr junkIds)) user0
              idOnlyPayload = Inr (flt, None) \<and> f_uid flt = None \<and> f_mailbox flt = None)"
proof -
  have a: "\<not> truthyStr (p_mailbox idOnlyPayload)" "\<not> p_searchable idOnlyPayload"
    "p_query idOnlyPayload = None"
    by (simp_all add: idOnlyPayload_def emptyPayload_def)
  have b: "uidRangeStringToQuery (p_id idOnlyPayload) = Some (UidRange (Num 5) (Some (Num 10)))"
    by code_simp
  show ?thesis
    using a b no_uid_without_mailbox_scope [where d = "storage (Inr 150) (Inr otherIds) (Inr junkIds)"
        and user = user0 and p = idOnlyPayload and esc = id]
    by (simp add: storage_simps)
qed

section \<open>The filter compiler: claim C6\<close>

subsection \<open>The conjunction group\<close>

lemma steps_and:
  "f_and (fst (stepUid p st)) = f_and (fst st)"
  "f_and (fst (stepThread p st)) = f_and (fst st)"
  "f_and (fst (stepFlagged p st)) = f_and (fst st)"
  "f_and (fst (stepSeen p st)) = f_and (fst st)"
  "f_and (fst (stepUnseen p st)) = f_and (fst st)"
  "f_and (fst (stepSearchable p st)) = f_and (fst st)"
  "f_and (fst (stepDatestart p st)) = f_and (fst st)"
  "f_and (fst (stepDateend p st)) = f_and (fst st)"
  "f_and (fst (stepOrFrom esc p st)) = f_and (fst st)"
  "f_and (fst (stepOrTo esc p st)) = f_and (fst st)"
  "f_and (fst (stepOrSubject esc p st)) = f_and (fst st)"
  "f_and (fst (stepAttachments p st)) = f_and (fst st)"
  "f_and (fst (stepMinSize p st)) = f_and (fst st)"
  "f_and (fst (stepMaxSize p st)) = f_and (fst st)"
  "f_and (fst (stepOr st)) = f_and (fst st)"
  by (cases st; simp add: step_defs Let_def split: option.splits)+

lemma steps_push:
  "f_and (fst (stepFrom esc p st)) =
     (if truthyStr (p_from p)
      then Some (andList (fst st) @ [fromClause esc (the (p_from p))]) else f_and (fst st))"
  "f_and (fst (stepTo esc p st)) =
     (if truthyStr (p_to p)
      then Some (andList (fst st) @ [toClause esc (the (p_to p))]) else f_and (fst st))"
  "f_and (fst (stepSubject esc p st)) =
     (if truthyStr (p_subject p)
      then Some (andList (fst st) @ map (subjectWordClause esc) (subjectWords (the (p_subject p))))
      else f_and (fst st))"
  by (cases st; simp add: step_defs andList_def)+

lemma afterMailbox_and:
  assumes "f_and (fst st) = None"
  shows "f_and (fst (afterMailbox esc p st)) =
     (if truthyStr (p_from p) \<or> truthyStr (p_to p) \<or> truthyStr (p_subject p) then
        Some ((if truthyStr (p_from p) then [fromClause esc (the (p_from p))] else []) @
              (if truthyStr (p_to p) then [toClause esc (the (p_to p))] else []) @
              (if truthyStr (p_subject p)
               then map (subjectWordClause esc) (subjectWords (the (p_subject p))) else []))
      else None)"
  using assms
  by (simp add: afterMailbox_def steps_and steps_push andList_def)

lemma prepare_and:
  assumes "prepareSearchFilter esc d user p = Inr (flt, q)"
  shows "f_and flt =
     (if truthyStr (p_from p) \<or> truthyStr (p_to p) \<or> truthyStr (p_subject p) then
        Some ((if truthyStr (p_from p) then [fromClause esc (the (p_from p))] else []) @
              (if truthyStr (p_to p) then [toClause esc (the (p_to p))] else []) @
              (if truthyStr (p_subject p)
               then map (subjectWordClause esc) (subjectWords (the (p_subject p))) else []))
      else None)"
proof -
  from assms obtain st where st: "stepMailbox d user p (stepQuery p (baseFilter user, [])) = Inr st"
    and flt: "flt = fst (afterMailbox esc p st)"
    by (rule prepare_Inr_D)
  have "f_and (fst st) = None"
    using stepMailbox_fields(2) [OF st] by (simp add: stepQuery_fields baseFilter_def)
  then show ?thesis
    unfolding flt by (rule afterMailbox_and)
qed

subsection \<open>Mandatory from and to terms\<close>

text \<open>
  Claim C6, as stated, fails: the pattern predicate of a name term is not
  case-insensitive. The payload \<open>{to: " Bob Smith "}\<close> compiles to the \<open>$or\<close> of
  \<open>{'search.toName': {$regex: 'bob smith'}}\<close> and
  \<open>{'search.ccName': {$regex: 'bob smith'}}\<close>: the source gives \<open>$regex\<close> alone, with no
  \<open>$options\<close>, and such a predicate compares letters exactly. Only the term is
  lowercased.
\<close>

theorem name_pattern_has_no_case_option:
  "prepareSearchFilter id (storage (Inr 150) (Inr otherIds) (Inr junkIds)) user0 bobPayload
     = Inr (bobFilter, None)
   \<and> f_and bobFilter = Some [OrClause [FieldRegex ''search.toName'' ''bob smith'',
                                        FieldRegex ''search.ccName'' ''bob smith'']]
   \<and> f_and bobFilter \<noteq> Some [OrClause [statedNamePattern ''search.toName'' ''bob smith'',
                                           statedNamePattern ''search.ccName'' ''bob smith'']]"
proof -
  have "prepareSearchFilter id (storage (Inr 150) (Inr otherIds) (Inr junkIds)) user0 bobPayload
     = Inr (bobFilter, None)"
    by code_simp
  then show ?thesis
    by (simp add: bobFilter_def statedNamePattern_def)
qed

text \<open>
  Claim C6, amended. In every filter the compiler returns, the \<open>$and\<close> group is absent
  when the payload has no from, to or subject term, and otherwise holds, in this order:
  for a from term, lowercased and trimmed, the equality \<open>search.from = term\<close> when the
  term contains \<open>@\<close> and otherwise the pattern of the escaped term on
  \<open>search.fromName\<close>; for a to term, lowercased and trimmed, the \<open>$or\<close> of the
  equalities on \<open>search.to\<close> and \<open>search.cc\<close> when the term contains \<open>@\<close> and otherwise
  the \<open>$or\<close> of the patterns of the escaped term on \<open>search.toName\<close> and
  \<open>search.ccName\<close>; then the subject clauses. Each pattern is \<open>$regex\<close> alone, without
  options, so it compares letters exactly. The payload \<open>{from: "alice@x.com"}\<close> compiles
  to the conjunction of the single clause \<open>search.from = "alice@x.com"\<close>.
\<close>

theorem mandatory_from_to_clauses:
  assumes ret: "prepareSearchFilter esc d user p = Inr (flt, q)"
  shows "f_and flt =
     (let fromTerm = trim (toLowerCase (the (p_from p)));
          toTerm = trim (toLowerCase (the (p_to p)));
          fromPart =
            (if truthyStr (p_from p) then
               [if CHR ''@'' \<in> set fromTerm then FieldEq ''search.from'' fromTerm
                else FieldRegex ''search.fromName'' (esc fromTerm)]
             else []);
          toPart =
            (if truthyStr (p_to p) then
               [if CHR ''@'' \<in> set toTerm
                then OrClause [FieldEq ''search.to'' toTerm, FieldEq ''search.cc'' toTerm]
                else OrClause [FieldRegex ''search.toName'' (esc toTerm),
                               FieldRegex ''search.ccName'' (esc toTerm)]]
             else []);
          subjectPart =
            (if truthyStr (p_subject p)
             then map (subjectWordClause esc) (subjectWords (the (p_subject p))) else [])
      in if truthyStr (p_from p) \<or> truthyStr (p_to p) \<or> truthyStr (p_subject p)
         then Some (fromPart @ toPart @ subjectPart) else None)"
  unfolding prepare_and [OF ret]
  by (simp add: Let_def fromClause_def toClause_def includesAt_def)

theorem mandatory_from_to_clauses_witness:
  "prepareSearchFilter id (storage (Inr 150) (Inr otherIds) (Inr junkIds)) user0 alicePayload
     = Inr (aliceFilter, None)
   \<and> f_and aliceFilter = Some [FieldEq ''search.from'' ''alice@x.com'']
   \<and> prepareSearchFilter id (storage (Inr 150) (Inr otherIds) (Inr junkIds)) user0 bobFromPayload
     = Inr (bobFromFilter, None)
   \<and> f_and bobFromFilter = Some [FieldRegex ''search.fromName'' ''bob smith'']"
proof -
  have a: "prepareSearchFilter id (storage (Inr 150) (Inr otherIds) (Inr junkIds)) user0
             alicePayload = Inr (aliceFilter, None)"
    by code_simp
  have b: "prepareSearchFilter id (storage (Inr 150) (Inr otherIds) (Inr junkIds)) user0
             bobFromPayload = Inr (bobFromFilter, None)"
    by code_simp
  show ?thesis
    using a b mandatory_from_to_clauses [OF a] mandatory_from_to_clauses [OF b]
    by (simp add: aliceFilter_def bobFromFilter_def)
qed

section \<open>The envelope search extractor: claims C7 and C10\<close>

subsection \<open>The loop collects the stated addresses and the trimmed names\<close>


lemma in_dropWhile: "x \<in> set xs \<Longrightarrow> \<not> P x \<Longrightarrow> x \<in> set (dropWhile P xs)"
  by (induction xs) auto

lemma in_trim: "x \<in> set s \<Longrightarrow> \<not> isSpace x \<Longrightarrow> x \<in> set (trim s)"
  by (simp add: trim_def in_dropWhile)

lemma at_lower: "lowerChar CHR ''@'' = CHR ''@''"
  by (simp add: lowerChar_def)

lemma at_not_space: "\<not> isSpace CHR ''@''"
  by (simp add: isSpace_def)

lemma address_includesAt: "includesAt (trim (toLowerCase (a @ ''@'' @ b)))"
proof -
  have "CHR ''@'' \<in> set (toLowerCase (a @ ''@'' @ b))"
    using at_lower by (force simp: toLowerCase_def)
  then show ?thesis
    unfolding includesAt_def using at_not_space by (rule in_trim)
qed

lemma collect_step:
  "bindE (pushAddress entry addresses) (\<lambda>addresses1.
     bindE (pushName entry names) (\<lambda>names1. k addresses1 names1)) =
   (if entryConverts entry
    then k (addresses @ (if hasAddress entry then [addressOf entry] else []))
           (names @ (if hasName entry \<and> nameOf entry \<noteq> [] then [nameOf entry] else []))
    else Inl TypeError)"
proof (cases entry)
  case (JArr e)
  then show ?thesis
    using address_includesAt
    by (simp add: pushAddress_def pushName_def entryConverts_def hasAddress_def addressOf_def
        hasName_def nameOf_def jsToString_def bindE_def Let_def)
qed (simp_all add: pushAddress_def pushName_def entryConverts_def hasAddress_def hasName_def
    bindE_def)

lemma collectEntries_acc:
  "collectEntries es addresses names =
     (if list_all entryConverts es
      then Inr (addresses @ statedAddresses es, names @ amendedNames es)
      else Inl TypeError)"
proof (induction es arbitrary: addresses names)
  case Nil
  then show ?case by (simp add: statedAddresses_def amendedNames_def)
next
  case (Cons entry rest)
  show ?case
    unfolding collectEntries.simps collect_step
    by (simp add: Cons.IH statedAddresses_def amendedNames_def)
qed

lemma collectEntries_eq:
  "collectEntries es [] [] =
     (if list_all entryConverts es then Inr (statedAddresses es, amendedNames es)
      else Inl TypeError)"
  by (simp add: collectEntries_acc)

lemma map_of_setProp: "map_of (setProp k v s) = (map_of s)(k \<mapsto> v)"
  by (induction s) (auto simp: fun_eq_iff)

lemma keys_setProp: "fst ` set (setProp k v s) = insert k (fst ` set s)"
  by (induction s) auto

lemma extractList_entries:
  "extractList ak nk v s =
     (if list_all entryConverts (entriesOf v) then Inr (writeList ak nk (entriesOf v) s)
      else Inl TypeError)"
proof (cases v)
  case (JArr es)
  then show ?thesis
    by (cases "es = []")
       (simp_all add: extractList_def collectEntries_eq entriesOf_def writeList_def bindE_def
         statedAddresses_def amendedNames_def)
qed (simp_all add: extractList_def entriesOf_def writeList_def statedAddresses_def
    amendedNames_def)

lemma map_of_writeList:
  assumes "ak \<noteq> nk"
  shows "map_of (writeList ak nk es s) k =
     (if k = ak \<and> statedAddresses es \<noteq> [] then addressField (statedAddresses es)
      else if k = nk \<and> amendedNames es \<noteq> [] then nameField (amendedNames es)
      else map_of s k)"
  using assms
  by (simp add: writeList_def Let_def map_of_setProp addressField_def nameField_def)

lemma keys_writeList:
  "fst ` set (writeList ak nk es s) \<subseteq> {ak, nk} \<union> fst ` set s"
  by (auto simp: writeList_def Let_def keys_setProp)

subsection \<open>The extractor as a whole\<close>

lemma getIndex_truthy: "truthy v \<Longrightarrow> \<exists>w. getIndex v i = Inr w"
  by (cases v) simp_all

lemma listAt_Inr: "getIndex v i = Inr w \<Longrightarrow> listAt v i = entriesOf w"
  by (simp add: listAt_def entriesOf_def)

lemma listAt_falsy: "\<not> truthy v \<Longrightarrow> listAt v i = []"
  by (cases v) (simp_all add: listAt_def)

lemma build_truthy:
  assumes "truthy envelope"
  shows "buildSearchFromEnvelope envelope subjectField =
     (if list_all entryConverts (listAt envelope 2)
         \<and> list_all entryConverts (listAt envelope 5)
         \<and> list_all entryConverts (listAt envelope 6)
      then extractSubject envelope subjectField
             (writeList ''cc'' ''ccName'' (listAt envelope 6)
               (writeList ''to'' ''toName'' (listAt envelope 5)
                 (writeList ''from'' ''fromName'' (listAt envelope 2) [])))
      else Inl TypeError)"
proof -
  obtain v2 v5 v6 where v: "getIndex envelope 2 = Inr v2" "getIndex envelope 5 = Inr v5"
      "getIndex envelope 6 = Inr v6"
    using getIndex_truthy [OF assms] by meson
  have l: "listAt envelope 2 = entriesOf v2" "listAt envelope 5 = entriesOf v5"
    "listAt envelope 6 = entriesOf v6"
    using v by (simp_all add: listAt_Inr)
  show ?thesis
    unfolding l using assms v
    by (simp add: buildSearchFromEnvelope_def bindE_def extractList_entries)
qed

lemma extractSubject_error:
  assumes "truthy envelope" "\<not> subjectConverts envelope subjectField"
  shows "extractSubject envelope subjectField s = Inl TypeError"
proof -
  obtain raw where raw: "getIndex envelope 1 = Inr raw"
    using getIndex_truthy [OF assms(1)] by blast
  show ?thesis
  proof (cases "truthy subjectField")
    case True
    with assms(2) show ?thesis
      by (cases subjectField) (simp_all add: extractSubject_def subjectConverts_def isString_def)
  next
    case False
    with assms(2) raw show ?thesis
      by (simp add: extractSubject_def subjectConverts_def bindE_def jsToString_def)
  qed
qed

lemma extractSubject_cases:
  assumes "extractSubject envelope subjectField s = Inr s'"
  shows "s' = s \<or> (\<exists>x. s' = setProp ''subject'' x s)"
  using assms
  by (auto simp: extractSubject_def bindE_def Let_def split: if_splits jsval.splits sum.splits)

lemma extractSubject_keys:
  assumes "extractSubject envelope subjectField s = Inr s'"
  shows "fst ` set s' \<subseteq> insert ''subject'' (fst ` set s)"
proof -
  from extractSubject_cases [OF assms] show ?thesis
  proof
    assume "s' = s"
    then show ?thesis by blast
  next
    assume "\<exists>x. s' = setProp ''subject'' x s"
    then obtain x where "s' = setProp ''subject'' x s" ..
    then show ?thesis by (simp add: keys_setProp)
  qed
qed

lemma extractSubject_others:
  assumes "extractSubject envelope subjectField s = Inr s'" "k \<noteq> ''subject''"
  shows "map_of s' k = map_of s k"
  using extractSubject_cases [OF assms(1)] assms(2) by (auto simp: map_of_setProp)

lemma extractSubject_ok:
  assumes "truthy envelope" "subjectConverts envelope subjectField"
  shows "\<exists>s'. extractSubject envelope subjectField s = Inr s'"
proof -
  obtain raw where raw: "getIndex envelope 1 = Inr raw"
    using getIndex_truthy [OF assms(1)] by blast
  show ?thesis
  proof (cases "truthy subjectField")
    case True
    with assms(2) obtain str where "subjectField = JStr str"
      by (cases subjectField) (simp_all add: subjectConverts_def isString_def)
    with True show ?thesis
      by (simp add: extractSubject_def)
  next
    case False
    with assms(2) raw show ?thesis
      by (simp add: extractSubject_def subjectConverts_def bindE_def jsToString_def)
  qed
qed

subsection \<open>Addresses and names per list\<close>

text \<open>
  Claim C7, as stated, fails in two ways. An entry whose display name is the single space
  has a non-empty display name, and the extractor emits no name for it (the name is
  dropped when it is empty after trimming), where the claim has the field \<open>fromName\<close>
  present with the trimmed name. And the extractor does fail on a malformed envelope: an
  entry whose display name is an object with a property \<open>toString\<close> makes
  \<open>entry[0].toString()\<close> throw a TypeError.
\<close>

theorem blank_name_dropped_and_conversion_fails:
  "buildSearchFromEnvelope (envelopeWithFrom [blankNameEntry]) JUndefined =
     Inr [(''from'', SAddrs [''jane@example.com''])]
   \<and> hasName blankNameEntry
   \<and> nameField (statedNames (listAt (envelopeWithFrom [blankNameEntry]) 2)) = Some (SText '''')
   \<and> buildSearchFromEnvelope (envelopeWithFrom [toStringEntry]) JUndefined = Inl TypeError"
  by code_simp

text \<open>
  Claim C7, amended. \<open>buildSearchFromEnvelope\<close> fails, with a TypeError, exactly when
  the envelope is there and a value it converts to a string does not convert: a subject
  field that is there and is no string, or, among the display names of the array entries,
  the local parts and domains of the array entries that have both, and the subject of the
  envelope when the subject field is not there, an object with an own property
  \<open>toString\<close> or an array holding one. For every other envelope and subject it returns,
  and per from/to/cc list its result holds the lowercase trimmed \<open>local@domain\<close>
  addresses of exactly the entries with both a local part and a domain, and the lowercase
  trimmed names of exactly the entries whose display name is non-empty after trimming,
  joined by single spaces; a field whose list is empty is absent. One from-entry (Jane
  Doe, jane, example.com) gives \<open>from = ["jane@example.com"]\<close> and
  \<open>fromName = "jane doe"\<close>; an entry without a domain gives no address and still its
  name; an empty from-list gives neither field.
\<close>

theorem buildSearchFromEnvelope_fields:
  "if truthy envelope \<and> \<not> converts envelope subjectField then
     buildSearchFromEnvelope envelope subjectField = Inl TypeError
   else
     (\<exists>search. buildSearchFromEnvelope envelope subjectField = Inr search
        \<and> map_of search ''from'' = addressField (statedAddresses (listAt envelope 2))
        \<and> map_of search ''fromName'' = nameField (amendedNames (listAt envelope 2))
        \<and> map_of search ''to'' = addressField (statedAddresses (listAt envelope 5))
        \<and> map_of search ''toName'' = nameField (amendedNames (listAt envelope 5))
        \<and> map_of search ''cc'' = addressField (statedAddresses (listAt envelope 6))
        \<and> map_of search ''ccName'' = nameField (amendedNames (listAt envelope 6)))"
proof (cases "truthy envelope")
  case False
  then show ?thesis
    by (simp add: buildSearchFromEnvelope_def listAt_falsy statedAddresses_def amendedNames_def
        addressField_def nameField_def)
next
  case True
  let ?s3 = "writeList ''cc'' ''ccName'' (listAt envelope 6)
               (writeList ''to'' ''toName'' (listAt envelope 5)
                 (writeList ''from'' ''fromName'' (listAt envelope 2) []))"
  note b = build_truthy [OF True, of subjectField]
  show ?thesis
  proof (cases "converts envelope subjectField")
    case False
    then have "buildSearchFromEnvelope envelope subjectField = Inl TypeError"
      unfolding b using extractSubject_error [OF True, of subjectField ?s3]
      by (auto simp: converts_def)
    with True False show ?thesis by simp
  next
    case ok: True
    then have lists: "list_all entryConverts (listAt envelope 2)
         \<and> list_all entryConverts (listAt envelope 5)
         \<and> list_all entryConverts (listAt envelope 6)"
      and subj: "subjectConverts envelope subjectField"
      by (simp_all add: converts_def)
    obtain s' where s': "extractSubject envelope subjectField ?s3 = Inr s'"
      using extractSubject_ok [OF True subj] by blast
    have r: "buildSearchFromEnvelope envelope subjectField = Inr s'"
      unfolding b using lists s' by simp
    have none: "addressField [] = None" "nameField [] = None"
      by (simp_all add: addressField_def nameField_def)
    have "map_of s' ''from'' = addressField (statedAddresses (listAt envelope 2))"
      "map_of s' ''fromName'' = nameField (amendedNames (listAt envelope 2))"
      "map_of s' ''to'' = addressField (statedAddresses (listAt envelope 5))"
      "map_of s' ''toName'' = nameField (amendedNames (listAt envelope 5))"
      "map_of s' ''cc'' = addressField (statedAddresses (listAt envelope 6))"
      "map_of s' ''ccName'' = nameField (amendedNames (listAt envelope 6))"
      by (simp_all add: extractSubject_others [OF s'] map_of_writeList none)
    with ok r show ?thesis by simp
  qed
qed

theorem buildSearchFromEnvelope_fields_witness:
  "buildSearchFromEnvelope (envelopeWithFrom [janeEntry]) JUndefined =
     Inr [(''from'', SAddrs [''jane@example.com'']), (''fromName'', SText ''jane doe'')]
   \<and> buildSearchFromEnvelope (envelopeWithFrom [noDomainEntry]) JUndefined =
     Inr [(''fromName'', SText ''jane doe'')]
   \<and> buildSearchFromEnvelope (envelopeWithFrom []) JUndefined = Inr []
   \<and> converts (envelopeWithFrom [janeEntry, noDomainEntry]) JUndefined
   \<and> (\<exists>search. buildSearchFromEnvelope (envelopeWithFrom [janeEntry, noDomainEntry]) JUndefined =
         Inr search
       \<and> map_of search ''from'' = Some (SAddrs [''jane@example.com''])
       \<and> map_of search ''fromName'' = Some (SText ''jane doe jane doe'')
       \<and> map_of search ''to'' = None)
   \<and> statedAddresses (listAt (envelopeWithFrom [janeEntry, noDomainEntry]) 2) = [''jane@example.com'']
   \<and> amendedNames (listAt (envelopeWithFrom [janeEntry, noDomainEntry]) 2) = [''jane doe'', ''jane doe'']
   \<and> \<not> converts (JNum ''7'') (JNum ''7'')
   \<and> buildSearchFromEnvelope (JNum ''7'') (JNum ''7'') = Inl TypeError
   \<and> \<not> converts (envelopeWithFrom [janeEntry, toStringEntry]) JUndefined
   \<and> buildSearchFromEnvelope (envelopeWithFrom [janeEntry, toStringEntry]) JUndefined =
       Inl TypeError"
proof -
  have e: "buildSearchFromEnvelope (envelopeWithFrom [janeEntry]) JUndefined =
     Inr [(''from'', SAddrs [''jane@example.com'']), (''fromName'', SText ''jane doe'')]"
    "buildSearchFromEnvelope (envelopeWithFrom [noDomainEntry]) JUndefined =
     Inr [(''fromName'', SText ''jane doe'')]"
    "buildSearchFromEnvelope (envelopeWithFrom []) JUndefined = Inr []"
    "statedAddresses (listAt (envelopeWithFrom [janeEntry, noDomainEntry]) 2) = [''jane@example.com'']"
    "amendedNames (listAt (envelopeWithFrom [janeEntry, noDomainEntry]) 2) = [''jane doe'', ''jane doe'']"
    "statedAddresses (listAt (envelopeWithFrom [janeEntry, noDomainEntry]) 5) = []"
    "converts (envelopeWithFrom [janeEntry, noDomainEntry]) JUndefined"
    "\<not> converts (JNum ''7'') (JNum ''7'')"
    "truthy (JNum ''7'')"
    "\<not> converts (envelopeWithFrom [janeEntry, toStringEntry]) JUndefined"
    "truthy (envelopeWithFrom [janeEntry, toStringEntry])"
    by code_simp+
  show ?thesis
    using e buildSearchFromEnvelope_fields [of "JNum ''7''" "JNum ''7''"]
      buildSearchFromEnvelope_fields [of "envelopeWithFrom [janeEntry, noDomainEntry]" JUndefined]
      buildSearchFromEnvelope_fields [of "envelopeWithFrom [janeEntry, toStringEntry]" JUndefined]
    by (simp add: addressField_def nameField_def) blast
qed

subsection \<open>The keys of the search index and the subject predicates\<close>

lemma steps_orQuery:
  "snd (stepUid p st) = snd st"
  "snd (stepThread p st) = snd st"
  "snd (stepFlagged p st) = snd st"
  "snd (stepSeen p st) = snd st"
  "snd (stepUnseen p st) = snd st"
  "snd (stepSearchable p st) = snd st"
  "snd (stepDatestart p st) = snd st"
  "snd (stepDateend p st) = snd st"
  "snd (stepFrom esc p st) = snd st"
  "snd (stepTo esc p st) = snd st"
  "snd (stepSubject esc p st) = snd st"
  "snd (stepAttachments p st) = snd st"
  "snd (stepMinSize p st) = snd st"
  "snd (stepMaxSize p st) = snd st"
  "snd (stepOr st) = snd st"
  "snd (stepOrFrom esc p st) = snd st @
     (if truthyStr (or_from (orTermsOf p)) then [fromClause esc (the (or_from (orTermsOf p)))]
      else [])"
  "snd (stepOrTo esc p st) = snd st @
     (if truthyStr (or_to (orTermsOf p)) then [toClause esc (the (or_to (orTermsOf p)))]
      else [])"
  "snd (stepOrSubject esc p st) = snd st @
     (if truthyStr (or_subject (orTermsOf p))
      then [orSubjectClause esc (the (or_subject (orTermsOf p)))] else [])"
  by (cases st; simp add: step_defs Let_def split: option.splits)+

lemma stepOr_or:
  "f_or (fst (stepOr st)) = (if snd st \<noteq> [] then Some (snd st) else f_or (fst st))"
  by (cases st) (simp add: stepOr_def)

lemma afterMailbox_or:
  assumes "truthyStr (or_subject (orTermsOf p))"
  shows "\<exists>pre. f_or (fst (afterMailbox esc p st)) =
           Some (pre @ [orSubjectClause esc (the (or_subject (orTermsOf p)))])"
proof -
  have "f_or (fst (afterMailbox esc p st)) =
          Some ((snd st @
             (if truthyStr (or_from (orTermsOf p))
              then [fromClause esc (the (or_from (orTermsOf p)))] else []) @
             (if truthyStr (or_to (orTermsOf p))
              then [toClause esc (the (or_to (orTermsOf p)))] else [])) @
             [orSubjectClause esc (the (or_subject (orTermsOf p)))])"
    using assms by (simp add: afterMailbox_def stepOr_or steps_orQuery)
  then show ?thesis by blast
qed

lemma prepare_or_subject:
  assumes "prepareSearchFilter esc d user p = Inr (flt, q)"
    and "truthyStr (or_subject (orTermsOf p))"
  shows "\<exists>pre. f_or flt = Some (pre @ [orSubjectClause esc (the (or_subject (orTermsOf p)))])"
proof -
  from assms(1) obtain st where "flt = fst (afterMailbox esc p st)"
    by (rule prepare_Inr_D)
  then show ?thesis
    using afterMailbox_or [OF assms(2)] by simp
qed

lemma prepare_and_subject:
  assumes "prepareSearchFilter esc d user p = Inr (flt, q)"
    and "truthyStr (p_subject p)"
  shows "\<exists>pre. f_and flt =
           Some (pre @ map (subjectWordClause esc) (subjectWords (the (p_subject p))))"
proof -
  have "f_and flt =
     Some (((if truthyStr (p_from p) then [fromClause esc (the (p_from p))] else []) @
            (if truthyStr (p_to p) then [toClause esc (the (p_to p))] else [])) @
           map (subjectWordClause esc) (subjectWords (the (p_subject p))))"
    using assms(2) by (simp add: prepare_and [OF assms(1)])
  then show ?thesis by blast
qed

lemma keys_chain:
  assumes "S \<subseteq> insert a A3" "A3 \<subseteq> {b, c} \<union> A2" "A2 \<subseteq> {d, e} \<union> A1"
    "A1 \<subseteq> {f, g} \<union> {}"
  shows "S \<subseteq> {f, g, d, e, b, c, a}"
  using assms by blast

lemma build_keys:
  assumes "buildSearchFromEnvelope envelope subjectField = Inr search"
  shows "fst ` set search \<subseteq>
           {''from'', ''fromName'', ''to'', ''toName'', ''cc'', ''ccName'', ''subject''}"
proof (cases "truthy envelope")
  case False
  with assms show ?thesis by (simp add: buildSearchFromEnvelope_def)
next
  case True
  let ?s1 = "writeList ''from'' ''fromName'' (listAt envelope 2) []"
  let ?s2 = "writeList ''to'' ''toName'' (listAt envelope 5) ?s1"
  let ?s3 = "writeList ''cc'' ''ccName'' (listAt envelope 6) ?s2"
  have "extractSubject envelope subjectField ?s3 = Inr search"
    using assms unfolding build_truthy [OF True] by (simp split: if_splits)
  then have k4: "fst ` set search \<subseteq> insert ''subject'' (fst ` set ?s3)"
    by (rule extractSubject_keys)
  have k3: "fst ` set ?s3 \<subseteq> {''cc'', ''ccName''} \<union> fst ` set ?s2"
    by (rule keys_writeList)
  have k2: "fst ` set ?s2 \<subseteq> {''to'', ''toName''} \<union> fst ` set ?s1"
    by (rule keys_writeList)
  have "fst ` set ?s1 \<subseteq> {''from'', ''fromName''} \<union> fst ` set ([] :: searchIndex)"
    by (rule keys_writeList)
  then have k1: "fst ` set ?s1 \<subseteq> {''from'', ''fromName''} \<union> {}"
    by simp
  show ?thesis
    by (rule keys_chain [OF k4 k3 k2 k1])
qed

text \<open>
  Claim C10. Every search index that \<open>buildSearchFromEnvelope\<close> returns has its keys
  among \<open>from\<close>, \<open>fromName\<close>, \<open>to\<close>, \<open>toName\<close>, \<open>cc\<close>, \<open>ccName\<close> and \<open>subject\<close>, and so
  never the key \<open>subjectWords\<close>; while in every filter the compiler returns, the clauses
  of a mandatory subject term are prefix patterns on \<open>search.subjectWords\<close>, one per
  word, at the end of the \<open>$and\<close> group, and the clause of a disjunctive subject term, at
  the end of the \<open>$or\<close> group, is such a pattern for one word and otherwise the \<open>$and\<close>
  of such patterns.
\<close>

theorem search_keys_and_subject_predicates:
  "(buildSearchFromEnvelope envelope subjectField = Inr search \<longrightarrow>
      fst ` set search \<subseteq>
        {''from'', ''fromName'', ''to'', ''toName'', ''cc'', ''ccName'', ''subject''}
      \<and> ''subjectWords'' \<notin> fst ` set search)
   \<and> (prepareSearchFilter esc d user p = Inr (flt, q) \<and> truthyStr (p_subject p) \<longrightarrow>
        (\<exists>pre. f_and flt =
           Some (pre @ map (\<lambda>word. FieldRegex ''search.subjectWords'' (''^'' @ esc word))
                         (subjectWords (the (p_subject p))))))
   \<and> (prepareSearchFilter esc d user p = Inr (flt, q)
        \<and> truthyStr (or_subject (orTermsOf p)) \<longrightarrow>
        (\<exists>pre words. words = subjectWords (the (or_subject (orTermsOf p))) \<and>
           f_or flt =
             Some (pre @
               [if length words = 1
                then FieldRegex ''search.subjectWords'' (''^'' @ esc (words ! 0))
                else AndClause
                  (map (\<lambda>word. FieldRegex ''search.subjectWords'' (''^'' @ esc word)) words)])))"
proof (intro conjI impI)
  assume b: "buildSearchFromEnvelope envelope subjectField = Inr search"
  show "fst ` set search \<subseteq>
        {''from'', ''fromName'', ''to'', ''toName'', ''cc'', ''ccName'', ''subject''}"
    using b by (rule build_keys)
  then have "fst ` set search \<subseteq>
        {''from'', ''fromName'', ''to'', ''toName'', ''cc'', ''ccName'', ''subject''}" .
  moreover have "''subjectWords'' \<notin>
        {''from'', ''fromName'', ''to'', ''toName'', ''cc'', ''ccName'', ''subject''}"
    by simp
  ultimately show "''subjectWords'' \<notin> fst ` set search"
    by (rule contra_subsetD)
next
  assume "prepareSearchFilter esc d user p = Inr (flt, q) \<and> truthyStr (p_subject p)"
  then have "\<exists>pre. f_and flt =
           Some (pre @ map (subjectWordClause esc) (subjectWords (the (p_subject p))))"
    using prepare_and_subject by blast
  then show "\<exists>pre. f_and flt =
           Some (pre @ map (\<lambda>word. FieldRegex ''search.subjectWords'' (''^'' @ esc word))
                         (subjectWords (the (p_subject p))))"
    by (simp add: subjectWordClause_def [abs_def])
next
  assume "prepareSearchFilter esc d user p = Inr (flt, q)
        \<and> truthyStr (or_subject (orTermsOf p))"
  then have "\<exists>pre. f_or flt = Some (pre @ [orSubjectClause esc (the (or_subject (orTermsOf p)))])"
    using prepare_or_subject by blast
  then obtain pre
    where pre: "f_or flt = Some (pre @ [orSubjectClause esc (the (or_subject (orTermsOf p)))])" ..
  show "\<exists>pre words. words = subjectWords (the (or_subject (orTermsOf p))) \<and>
           f_or flt =
             Some (pre @
               [if length words = 1
                then FieldRegex ''search.subjectWords'' (''^'' @ esc (words ! 0))
                else AndClause
                  (map (\<lambda>word. FieldRegex ''search.subjectWords'' (''^'' @ esc word)) words)])"
    by (rule exI [of _ pre], rule exI [of _ "subjectWords (the (or_subject (orTermsOf p)))"])
       (simp add: pre orSubjectClause_def Let_def subjectWordClause_def [abs_def])
qed

theorem search_keys_and_subject_predicates_witness:
  "buildSearchFromEnvelope (envelopeWithFrom [janeEntry]) (JStr ''Hello World'') =
     Inr [(''from'', SAddrs [''jane@example.com'']), (''fromName'', SText ''jane doe''),
          (''subject'', SText ''hello world'')]
   \<and> ''subjectWords'' \<notin> fst ` set [(''from'', SAddrs [''jane@example.com'']),
          (''fromName'', SText ''jane doe''), (''subject'', SText ''hello world'')]
   \<and> prepareSearchFilter id (storage (Inr 150) (Inr otherIds) (Inr junkIds)) user0 subjectPayload
     = Inr ((baseFilter user0)\<lparr> f_and := Some [FieldRegex ''search.subjectWords'' ''^hello'',
                                                  FieldRegex ''search.subjectWords'' ''^world''] \<rparr>,
            None)
   \<and> prepareSearchFilter id (storage (Inr 150) (Inr otherIds) (Inr junkIds)) user0 orSubjectPayload
     = Inr ((baseFilter user0)\<lparr> f_or := Some [FieldRegex ''search.subjectWords'' ''^hello''] \<rparr>,
            None)"
proof -
  have b: "buildSearchFromEnvelope (envelopeWithFrom [janeEntry]) (JStr ''Hello World'') =
     Inr [(''from'', SAddrs [''jane@example.com'']), (''fromName'', SText ''jane doe''),
          (''subject'', SText ''hello world'')]"
    by code_simp
  have c: "prepareSearchFilter id (storage (Inr 150) (Inr otherIds) (Inr junkIds)) user0
       subjectPayload
     = Inr ((baseFilter user0)\<lparr> f_and := Some [FieldRegex ''search.subjectWords'' ''^hello'',
                                                  FieldRegex ''search.subjectWords'' ''^world''] \<rparr>,
            None)"
    by code_simp
  have o: "prepareSearchFilter id (storage (Inr 150) (Inr otherIds) (Inr junkIds)) user0
       orSubjectPayload
     = Inr ((baseFilter user0)\<lparr> f_or := Some [FieldRegex ''search.subjectWords'' ''^hello''] \<rparr>,
            None)"
    by code_simp
  show ?thesis
    using b c o
      search_keys_and_subject_predicates [of "envelopeWithFrom [janeEntry]" "JStr ''Hello World''"
        "[(''from'', SAddrs [''jane@example.com'']), (''fromName'', SText ''jane doe''),
          (''subject'', SText ''hello world'')]" id
        "storage (Inr 150) (Inr otherIds) (Inr junkIds)" user0 subjectPayload
        "(baseFilter user0)\<lparr> f_and := Some [FieldRegex ''search.subjectWords'' ''^hello'',
                                                  FieldRegex ''search.subjectWords'' ''^world''] \<rparr>"
        None]
    by simp
qed

section \<open>The migration: claims C8 and C9\<close>

subsection \<open>Bulk writes\<close>


lemma updateOne_ids: "map d_id (fst (updateOne i s ds)) = map d_id ds"
  by (induction ds) (auto split: prod.splits)

lemma bulkWrite_Cons:
  "fst (bulkWrite ((i, s) # ops) store) = fst (bulkWrite ops (fst (updateOne i s store)))"
  "snd (bulkWrite ((i, s) # ops) store) =
     snd (updateOne i s store) + snd (bulkWrite ops (fst (updateOne i s store)))"
  by (simp_all split: prod.splits)

lemma bulkWrite_ids: "map d_id (fst (bulkWrite ops ds)) = map d_id ds"
proof (induction ops arbitrary: ds)
  case Nil
  then show ?case by simp
next
  case (Cons op ops)
  obtain i s where op: "op = (i, s)" by (cases op)
  show ?case
    unfolding op bulkWrite_Cons by (simp add: Cons.IH updateOne_ids)
qed

lemma updateOne_member:
  "d \<in> set (fst (updateOne i s ds)) \<Longrightarrow>
   d \<in> set ds \<or> (d_id d = i \<and> d_search d = Some s)"
  by (induction ds) (auto split: prod.splits if_splits)

lemma bulkWrite_member:
  "d \<in> set (fst (bulkWrite ops ds)) \<Longrightarrow>
   d \<in> set ds \<or> (d_id d \<in> fst ` set ops \<and> d_search d \<noteq> None)"
proof (induction ops arbitrary: ds)
  case Nil
  then show ?case by simp
next
  case (Cons op ops)
  obtain i s where op: "op = (i, s)" by (cases op)
  from Cons.prems have "d \<in> set (fst (bulkWrite ops (fst (updateOne i s ds))))"
    by (simp only: op bulkWrite_Cons)
  then have "d \<in> set (fst (updateOne i s ds))
      \<or> (d_id d \<in> fst ` set ops \<and> d_search d \<noteq> None)"
    by (rule Cons.IH)
  then show ?case
    using updateOne_member [of d i s ds] by (auto simp: op)
qed

lemma buildOps_ids: "buildOps batch = Inr ops \<Longrightarrow> map fst ops = map d_id batch"
  by (induction batch arbitrary: ops) (auto split: sum.splits)

lemma fetchBatch_nonempty_ops:
  "buildOps batch = Inr ops \<Longrightarrow> batch \<noteq> [] \<Longrightarrow> ops \<noteq> []"
  using buildOps_ids by fastforce

subsection \<open>One turn of the loop, and induction over the turns\<close>

lemma migrateLoop_done:
  "fetchBatch bound (r_lastId st) (arrive inserts (r_store st)) = [] \<Longrightarrow>
   migrateLoop bound inserts st = st\<lparr> r_store := arrive inserts (r_store st) \<rparr>"
  by (subst migrateLoop.simps) (simp add: Let_def)

lemma migrateLoop_abort:
  "fetchBatch bound (r_lastId st) (arrive inserts (r_store st)) = batch \<Longrightarrow> batch \<noteq> [] \<Longrightarrow>
   buildOps batch = Inl e \<Longrightarrow>
   migrateLoop bound inserts st =
     st\<lparr> r_store := arrive inserts (r_store st), r_fetched := r_fetched st @ [batch],
         r_aborted := Some e \<rparr>"
  by (subst migrateLoop.simps) (simp add: Let_def)

lemma migrateLoop_step:
  "fetchBatch bound (r_lastId st) (arrive inserts (r_store st)) = batch \<Longrightarrow> batch \<noteq> [] \<Longrightarrow>
   buildOps batch = Inr bulkOps \<Longrightarrow>
   migrateLoop bound inserts st =
     migrateLoop bound (tl inserts) (nextRun st batch bulkOps (arrive inserts (r_store st)))"
  by (subst migrateLoop.simps)
     (simp add: Let_def nextRun_def fetchBatch_nonempty_ops split: prod.splits)

lemma migrateLoop_turns [case_names finished aborted turn]:
  assumes finished: "\<And>bound inserts st.
      fetchBatch bound (r_lastId st) (arrive inserts (r_store st)) = [] \<Longrightarrow> P bound inserts st"
    and aborted: "\<And>bound inserts st batch e.
      fetchBatch bound (r_lastId st) (arrive inserts (r_store st)) = batch \<Longrightarrow> batch \<noteq> [] \<Longrightarrow>
      buildOps batch = Inl e \<Longrightarrow> P bound inserts st"
    and turn: "\<And>bound inserts st batch bulkOps.
      fetchBatch bound (r_lastId st) (arrive inserts (r_store st)) = batch \<Longrightarrow> batch \<noteq> [] \<Longrightarrow>
      buildOps batch = Inr bulkOps \<Longrightarrow>
      P bound (tl inserts) (nextRun st batch bulkOps (arrive inserts (r_store st))) \<Longrightarrow>
      P bound inserts st"
  shows "P bound inserts st"
proof (induction bound inserts st rule: migrateLoop.induct)
  case (1 bound inserts st)
  let ?store = "arrive inserts (r_store st)"
  let ?batch = "fetchBatch bound (r_lastId st) ?store"
  show ?case
  proof (cases "?batch = []")
    case True
    then show ?thesis by (rule finished)
  next
    case False
    show ?thesis
    proof (cases "buildOps ?batch")
      case (Inl e)
      with False show ?thesis using aborted by blast
    next
      case (Inr bulkOps)
      have ne: "bulkOps \<noteq> []"
        using Inr False by (rule fetchBatch_nonempty_ops)
      have "P bound (tl inserts) (nextRun st ?batch bulkOps ?store)"
        unfolding nextRun_def
        using "1.IH" [OF refl refl False Inr, of "fst (bulkWrite bulkOps ?store)"
            "snd (bulkWrite bulkOps ?store)"] ne
        by simp
      with False Inr show ?thesis using turn by blast
    qed
  qed
qed

subsection \<open>The snapshot bound\<close>


lemma sorted_last_greatest:
  "sorted xs \<Longrightarrow> x \<in> set xs \<Longrightarrow> x \<le> last xs"
  by (induction xs) auto

lemma sort_key_Nil: "sort_key f xs = [] \<longleftrightarrow> xs = []"
  by (simp only: length_0_conv [symmetric] length_sort)

lemma maxIdAtStart_None: "maxIdAtStart store = None \<longleftrightarrow> store = []"
  using sort_key_Nil [of d_id store]
  by (cases "sort_key d_id store" rule: rev_cases) (auto simp: maxIdAtStart_def)

lemma maxIdAtStart_greatest:
  assumes "maxIdAtStart store = Some bound" "d \<in> set store"
  shows "d_id d \<le> bound"
proof (cases "sort_key d_id store" rule: rev_cases)
  case Nil
  with assms(2) show ?thesis by (simp add: sort_key_Nil)
next
  case (snoc ys y)
  with assms(1) have b: "bound = d_id y"
    by (simp add: maxIdAtStart_def)
  have "d_id d \<in> set (map d_id (sort_key d_id store))"
    using assms(2) by simp
  moreover have "sorted (map d_id (sort_key d_id store))"
    by simp
  ultimately have "d_id d \<le> last (map d_id (sort_key d_id store))"
    by (rule sorted_last_greatest [rotated])
  then show ?thesis
    by (simp add: snoc b)
qed

lemma arrive_subset: "set (arrive inserts store) \<subseteq> set store \<union> set (concat inserts)"
  by (cases inserts) (auto simp: arrive_def)

lemma arrive_above:
  assumes "\<forall>d \<in> set store. bound < d_id d \<longrightarrow> d \<in> X" "set (concat inserts) \<subseteq> X"
  shows "\<forall>d \<in> set (arrive inserts store). bound < d_id d \<longrightarrow> d \<in> X"
  using assms by (cases inserts) (auto simp: arrive_def)

lemma tl_concat_subset: "set (concat (tl inserts)) \<subseteq> set (concat inserts)"
  by (cases inserts) auto

lemma loop_fetched:
  assumes "\<forall>batch \<in> set (r_fetched st). \<forall>d \<in> set batch. d_id d \<le> bound \<and> d_search d = None"
  shows "\<forall>batch \<in> set (r_fetched (migrateLoop bound inserts st)).
           \<forall>d \<in> set batch. d_id d \<le> bound \<and> d_search d = None"
  using assms
proof (induction bound inserts st rule: migrateLoop_turns)
  case (finished bound inserts st)
  then show ?case by (simp add: migrateLoop_done)
next
  case (aborted bound inserts st batch e)
  have "\<forall>d \<in> set batch. d_id d \<le> bound \<and> d_search d = None"
    using aborted(1) fetchBatch_matches by (fastforce simp: matchesQuery_def)
  with aborted show ?case
    by (simp add: migrateLoop_abort)
next
  case (turn bound inserts st batch bulkOps)
  have "\<forall>d \<in> set batch. d_id d \<le> bound \<and> d_search d = None"
    using turn(1) fetchBatch_matches by (fastforce simp: matchesQuery_def)
  with turn.prems
  have "\<forall>b \<in> set (r_fetched (nextRun st batch bulkOps (arrive inserts (r_store st)))).
          \<forall>d \<in> set b. d_id d \<le> bound \<and> d_search d = None"
    by (simp add: nextRun_def)
  then show ?case
    using turn.IH by (simp add: migrateLoop_step [OF turn(1-3)])
qed

lemma ops_low:
  assumes "\<forall>d \<in> set batch. d_id d \<le> (bound :: nat)" "fst ` set bulkOps = d_id ` set batch"
  shows "\<forall>op \<in> set bulkOps. fst op \<le> bound"
proof
  fix op assume "op \<in> set bulkOps"
  then have "fst op \<in> fst ` set bulkOps" by (rule imageI)
  then have "fst op \<in> d_id ` set batch" by (simp only: assms(2))
  then obtain b where "fst op = d_id b" "b \<in> set batch" ..
  with assms(1) show "fst op \<le> bound" by simp
qed

lemma loop_staged:
  assumes "\<forall>ops \<in> set (r_staged st). \<forall>op \<in> set ops. fst op \<le> bound"
  shows "\<forall>ops \<in> set (r_staged (migrateLoop bound inserts st)). \<forall>op \<in> set ops. fst op \<le> bound"
  using assms
proof (induction bound inserts st rule: migrateLoop_turns)
  case (finished bound inserts st)
  then show ?case by (simp add: migrateLoop_done)
next
  case (aborted bound inserts st batch e)
  then show ?case by (simp add: migrateLoop_abort)
next
  case (turn bound inserts st batch bulkOps)
  have "\<forall>d \<in> set batch. d_id d \<le> bound"
    using turn(1) fetchBatch_matches by (fastforce simp: matchesQuery_def)
  moreover have "fst ` set bulkOps = d_id ` set batch"
    using buildOps_ids [OF turn(3)] by (metis set_map)
  ultimately have "\<forall>op \<in> set bulkOps. fst op \<le> bound"
    by (rule ops_low)
  with turn.prems
  have "\<forall>ops \<in> set (r_staged (nextRun st batch bulkOps (arrive inserts (r_store st)))).
          \<forall>op \<in> set ops. fst op \<le> bound"
    by (simp add: nextRun_def)
  then show ?case
    using turn.IH by (simp add: migrateLoop_step [OF turn(1-3)])
qed

lemma nextRun_simps:
  "r_store (nextRun st batch bulkOps store) = fst (bulkWrite bulkOps store)"
  "r_lastId (nextRun st batch bulkOps store) = Some (d_id (last batch))"
  "r_fetched (nextRun st batch bulkOps store) = r_fetched st @ [batch]"
  "r_staged (nextRun st batch bulkOps store) = r_staged st @ [bulkOps]"
  "r_aborted (nextRun st batch bulkOps store) = r_aborted st"
  by (simp_all add: nextRun_def)

lemma bulkWrite_above:
  assumes ops: "\<forall>op \<in> set bulkOps. fst op \<le> bound"
    and d: "d \<in> set (fst (bulkWrite bulkOps store))" "bound < d_id d"
  shows "d \<in> set store"
proof -
  have "d_id d \<notin> fst ` set bulkOps"
  proof
    assume "d_id d \<in> fst ` set bulkOps"
    then obtain op where "d_id d = fst op" "op \<in> set bulkOps" ..
    with ops have "d_id d \<le> bound" by simp
    with d(2) show False by simp
  qed
  with bulkWrite_member [OF d(1)] show ?thesis by blast
qed

lemma loop_above_bound:
  assumes "\<forall>d \<in> set (r_store st). bound < d_id d \<longrightarrow> d \<in> X" "set (concat inserts) \<subseteq> X"
  shows "\<forall>d \<in> set (r_store (migrateLoop bound inserts st)). bound < d_id d \<longrightarrow> d \<in> X"
  using assms
proof (induction bound inserts st rule: migrateLoop_turns)
  case (finished bound inserts st)
  have "\<forall>d \<in> set (arrive inserts (r_store st)). bound < d_id d \<longrightarrow> d \<in> X"
    using finished.prems by (rule arrive_above)
  then show ?case
    by (simp add: migrateLoop_done [OF finished(1)])
next
  case (aborted bound inserts st batch e)
  have "\<forall>d \<in> set (arrive inserts (r_store st)). bound < d_id d \<longrightarrow> d \<in> X"
    using aborted.prems by (rule arrive_above)
  then show ?case
    by (simp add: migrateLoop_abort [OF aborted(1-3)])
next
  case (turn bound inserts st batch bulkOps)
  let ?store = "arrive inserts (r_store st)"
  have arrived: "\<forall>d \<in> set ?store. bound < d_id d \<longrightarrow> d \<in> X"
    using turn.prems by (rule arrive_above)
  have ids: "fst ` set bulkOps = d_id ` set batch"
    using buildOps_ids [OF turn(3)] by (metis set_map)
  have low: "\<forall>d \<in> set batch. d_id d \<le> bound"
    using turn(1) fetchBatch_matches by (fastforce simp: matchesQuery_def)
  have ops: "\<forall>op \<in> set bulkOps. fst op \<le> bound"
    using low ids by (rule ops_low)
  have a: "\<forall>d \<in> set (r_store (nextRun st batch bulkOps ?store)). bound < d_id d \<longrightarrow> d \<in> X"
  proof (intro ballI impI)
    fix d assume d: "d \<in> set (r_store (nextRun st batch bulkOps ?store))" "bound < d_id d"
    from d(1) have "d \<in> set (fst (bulkWrite bulkOps ?store))"
      by (simp only: nextRun_simps)
    with ops have "d \<in> set ?store"
      using d(2) by (rule bulkWrite_above)
    with arrived have "bound < d_id d \<longrightarrow> d \<in> X"
      by (rule bspec)
    with d(2) show "d \<in> X" by simp
  qed
  have b: "set (concat (tl inserts)) \<subseteq> X"
    using tl_concat_subset [of inserts] turn.prems(2) by (rule subset_trans)
  show ?case
    using turn.IH [OF a b] by (simp only: migrateLoop_step [OF turn(1-3)])
qed

text \<open>
  Claim C9. The snapshot bound is the greatest identifier present when the run starts; it
  is read once and handed to the loop as a constant. Whatever documents other writers
  insert while the run goes on, every document the run fetches has an identifier at or
  below the bound (and no search field), every update it stages is keyed by an
  identifier at or below the bound, and every document of the final collection with an
  identifier above the bound is exactly as it was inserted: never written, also when
  it lacks the search field.
\<close>

theorem addSearchFields_within_snapshot:
  assumes "maxIdAtStart store = Some bound"
  shows "(\<forall>d \<in> set store. d_id d \<le> bound)
    \<and> (\<forall>batch \<in> set (r_fetched (addSearchFields inserts store)).
          \<forall>d \<in> set batch. d_id d \<le> bound \<and> d_search d = None)
    \<and> (\<forall>ops \<in> set (r_staged (addSearchFields inserts store)). \<forall>op \<in> set ops. fst op \<le> bound)
    \<and> (\<forall>d \<in> set (r_store (addSearchFields inserts store)).
          bound < d_id d \<longrightarrow> d \<in> set (concat inserts))"
proof -
  have low: "\<forall>d \<in> set store. d_id d \<le> bound"
    using assms maxIdAtStart_greatest by blast
  show ?thesis
  proof (cases "length (filter (matchesQuery bound None) store) = 0")
    case True
    then have "addSearchFields inserts store = initialRun store"
      using assms by (simp add: addSearchFields_def)
    with low show ?thesis
      by (fastforce simp: initialRun_def)
  next
    case False
    then have r: "addSearchFields inserts store = migrateLoop bound inserts (initialRun store)"
      using assms by (simp add: addSearchFields_def)
    have "\<forall>batch \<in> set (r_fetched (migrateLoop bound inserts (initialRun store))).
            \<forall>d \<in> set batch. d_id d \<le> bound \<and> d_search d = None"
      by (rule loop_fetched) (simp add: initialRun_def)
    moreover have "\<forall>ops \<in> set (r_staged (migrateLoop bound inserts (initialRun store))).
            \<forall>op \<in> set ops. fst op \<le> bound"
      by (rule loop_staged) (simp add: initialRun_def)
    moreover have "\<forall>d \<in> set (r_store (migrateLoop bound inserts (initialRun store))).
            bound < d_id d \<longrightarrow> d \<in> set (concat inserts)"
      using low by (intro loop_above_bound) (auto simp: initialRun_def)
    ultimately show ?thesis
      using low by (simp add: r)
  qed
qed

theorem addSearchFields_within_snapshot_witness:
  "maxIdAtStart exampleStore = Some 3
   \<and> map (map d_id) (r_fetched (addSearchFields exampleInserts exampleStore)) = [[0, 1, 3]]
   \<and> map (map fst) (r_staged (addSearchFields exampleInserts exampleStore)) = [[0, 1, 3]]
   \<and> filter (\<lambda>d. 3 < d_id d) (r_store (addSearchFields exampleInserts exampleStore)) =
       [messageDoc 7 ''Late'' None]
   \<and> messageDoc 7 ''Late'' None \<in> set (concat exampleInserts)
   \<and> list_all (\<lambda>d. d_id d \<le> 3) exampleStore"
proof -
  have m: "maxIdAtStart exampleStore = Some 3" by code_simp
  have e: "map (map d_id) (r_fetched (addSearchFields exampleInserts exampleStore)) = [[0, 1, 3]]"
    "map (map fst) (r_staged (addSearchFields exampleInserts exampleStore)) = [[0, 1, 3]]"
    "filter (\<lambda>d. 3 < d_id d) (r_store (addSearchFields exampleInserts exampleStore)) =
       [messageDoc 7 ''Late'' None]"
    by code_simp+
  have i: "messageDoc 7 ''Late'' None \<in> set (concat exampleInserts)"
    by (simp add: exampleInserts_def)
  have t: "list_all (\<lambda>d. d_id d \<le> 3) exampleStore"
    unfolding list_all_iff using addSearchFields_within_snapshot [OF m, of exampleInserts] by (rule conjunct1)
  show ?thesis
    by (intro conjI) (rule m e i t)+
qed

subsection \<open>A complete run leaves nothing to migrate\<close>

lemma updateOne_hit:
  "distinct (map d_id ds) \<Longrightarrow> d \<in> set (fst (updateOne i s ds)) \<Longrightarrow> d_id d = i \<Longrightarrow>
   d_search d \<noteq> None"
proof (induction ds)
  case Nil
  then show ?case by simp
next
  case (Cons d0 ds)
  show ?case
  proof (cases "d_id d0 = i")
    case True
    with Cons.prems show ?thesis by (auto simp: image_iff)
  next
    case False
    with Cons.prems have "d \<in> set (fst (updateOne i s ds))"
      by (auto split: prod.splits)
    moreover from Cons.prems have "distinct (map d_id ds)" by simp
    ultimately show ?thesis
      using Cons.IH Cons.prems(3) by blast
  qed
qed

lemma bulkWrite_keeps:
  assumes "\<forall>d \<in> set ds. d_id d = j \<longrightarrow> d_search d \<noteq> None"
    and "d \<in> set (fst (bulkWrite ops ds))" "d_id d = j"
  shows "d_search d \<noteq> None"
proof -
  from bulkWrite_member [OF assms(2)]
  have "d \<in> set ds \<or> (d_id d \<in> fst ` set ops \<and> d_search d \<noteq> None)" .
  then show ?thesis
  proof
    assume "d \<in> set ds"
    with assms(1) have "d_id d = j \<longrightarrow> d_search d \<noteq> None" by (rule bspec)
    with assms(3) show ?thesis by simp
  next
    assume "d_id d \<in> fst ` set ops \<and> d_search d \<noteq> None"
    then show ?thesis by simp
  qed
qed

lemma bulkWrite_hit:
  "distinct (map d_id ds) \<Longrightarrow> j \<in> fst ` set ops \<Longrightarrow>
   d \<in> set (fst (bulkWrite ops ds)) \<Longrightarrow> d_id d = j \<Longrightarrow> d_search d \<noteq> None"
proof (induction ops arbitrary: ds)
  case Nil
  then show ?case by simp
next
  case (Cons op ops)
  obtain i s where op: "op = (i, s)" by (cases op)
  let ?ds1 = "fst (updateOne i s ds)"
  have dist: "distinct (map d_id ?ds1)"
    using Cons.prems(1) by (simp only: updateOne_ids)
  have mem: "d \<in> set (fst (bulkWrite ops ?ds1))"
    using Cons.prems(3) by (simp only: op bulkWrite_Cons)
  show ?case
  proof (cases "j \<in> fst ` set ops")
    case True
    then show ?thesis
      using Cons.IH [OF dist True mem Cons.prems(4)] by simp
  next
    case False
    with Cons.prems(2) have ji: "j = i" by (simp add: op)
    have "\<forall>d \<in> set ?ds1. d_id d = j \<longrightarrow> d_search d \<noteq> None"
    proof (intro ballI impI)
      fix x assume "x \<in> set ?ds1" "d_id x = j"
      then show "d_search x \<noteq> None"
        using updateOne_hit [OF Cons.prems(1), of x i s] ji by simp
    qed
    then show ?thesis
      using mem Cons.prems(4) by (rule bulkWrite_keeps)
  qed
qed

lemma bulkWrite_None_member:
  "d \<in> set (fst (bulkWrite ops ds)) \<Longrightarrow> d_search d = None \<Longrightarrow> d \<in> set ds"
  using bulkWrite_member [of d ops ds] by simp

lemma sorted_take_last:
  assumes "sorted (map f xs)" "take n xs \<noteq> []" "x \<in> set (drop n xs)"
  shows "f (last (take n xs)) \<le> f x"
proof -
  have "sorted (map f (take n xs) @ map f (drop n xs))"
    using assms(1) by (simp only: map_append [symmetric] append_take_drop_id)
  then have "\<forall>a \<in> set (map f (take n xs)). \<forall>b \<in> set (map f (drop n xs)). a \<le> b"
    by (simp only: sorted_append) simp
  moreover have "f (last (take n xs)) \<in> set (map f (take n xs))"
    using assms(2) by simp
  moreover have "f x \<in> set (map f (drop n xs))"
    using assms(3) by simp
  ultimately show ?thesis by blast
qed

lemma fetchBatch_Nil:
  "fetchBatch bound lastId store = [] \<longleftrightarrow> filter (matchesQuery bound lastId) store = []"
proof -
  have "take BATCH_SIZE xs = [] \<longleftrightarrow> xs = []" for xs :: "doc list"
    by (simp add: BATCH_SIZE_def)
  then show ?thesis
    by (simp add: fetchBatch_def sort_key_Nil)
qed

text \<open>A document that matches the query and is not in the batch lies above the batch.\<close>

lemma beyond_batch:
  assumes batch: "fetchBatch bound lastId store = batch" "batch \<noteq> []"
    and d: "d \<in> set store" "matchesQuery bound lastId d" "d_id d \<notin> d_id ` set batch"
  shows "d_id (last batch) < d_id d"
proof -
  let ?S = "sort_key d_id (filter (matchesQuery bound lastId) store)"
  have b: "batch = take BATCH_SIZE ?S"
    using batch(1) by (simp add: fetchBatch_def)
  have "d \<in> set ?S"
    using d(1,2) by simp
  then have "d \<in> set (take BATCH_SIZE ?S) \<or> d \<in> set (drop BATCH_SIZE ?S)"
    by (metis Un_iff append_take_drop_id set_append)
  moreover have "d \<notin> set batch"
    using d(3) by blast
  ultimately have "d \<in> set (drop BATCH_SIZE ?S)"
    by (simp add: b)
  moreover have "sorted (map d_id ?S)" by simp
  moreover have "take BATCH_SIZE ?S \<noteq> []"
    using batch(2) b by simp
  ultimately have "d_id (last (take BATCH_SIZE ?S)) \<le> d_id d"
    using sorted_take_last [of d_id ?S BATCH_SIZE d] by simp
  moreover have "d_id (last batch) \<in> d_id ` set batch"
    using batch(2) by simp
  then have "d_id (last batch) \<noteq> d_id d"
    using d(3) by metis
  ultimately show ?thesis
    by (simp add: b)
qed

lemma arrive_Nil: "arrive [] store = store"
  by (simp add: arrive_def)

lemma loop_ids:
  assumes "inserts = []"
  shows "map d_id (r_store (migrateLoop bound inserts st)) = map d_id (r_store st)"
  using assms
proof (induction bound inserts st rule: migrateLoop_turns)
  case (finished bound inserts st)
  show ?case
    unfolding migrateLoop_done [OF finished(1)] using finished.prems
    by (simp add: arrive_Nil)
next
  case (aborted bound inserts st batch e)
  show ?case
    unfolding migrateLoop_abort [OF aborted(1-3)] using aborted.prems
    by (simp add: arrive_Nil)
next
  case (turn bound inserts st batch bulkOps)
  have "tl inserts = []" using turn.prems by simp
  then have "map d_id (r_store (migrateLoop bound (tl inserts)
               (nextRun st batch bulkOps (arrive inserts (r_store st))))) =
             map d_id (r_store (nextRun st batch bulkOps (arrive inserts (r_store st))))"
    by (rule turn.IH)
  then show ?case
    unfolding migrateLoop_step [OF turn(1-3)] using turn.prems
    by (simp add: nextRun_simps bulkWrite_ids arrive_Nil)
qed

text \<open>
  With no other writer: when every document without a search field at or below the bound
  matches the query of the next fetch, a run that is not aborted leaves no such document.
\<close>

lemma loop_complete:
  assumes "inserts = []"
    and "distinct (map d_id (r_store st))"
    and "\<forall>d \<in> set (r_store st). d_search d = None \<and> d_id d \<le> bound \<longrightarrow>
           matchesQuery bound (r_lastId st) d"
    and "r_aborted (migrateLoop bound inserts st) = None"
  shows "\<forall>d \<in> set (r_store (migrateLoop bound inserts st)).
           d_id d \<le> bound \<longrightarrow> d_search d \<noteq> None"
  using assms
proof (induction bound inserts st rule: migrateLoop_turns)
  case (finished bound inserts st)
  have none: "filter (matchesQuery bound (r_lastId st)) (r_store st) = []"
    using finished(1) finished.prems(1) by (simp add: fetchBatch_Nil arrive_Nil)
  have "\<forall>d \<in> set (r_store st). d_id d \<le> bound \<longrightarrow> d_search d \<noteq> None"
  proof (intro ballI impI)
    fix d assume d: "d \<in> set (r_store st)" "d_id d \<le> bound"
    show "d_search d \<noteq> None"
    proof
      assume "d_search d = None"
      with d finished.prems(3) have "matchesQuery bound (r_lastId st) d" by blast
      with d(1) have "d \<in> set (filter (matchesQuery bound (r_lastId st)) (r_store st))"
        by simp
      with none show False by simp
    qed
  qed
  then show ?case
    unfolding migrateLoop_done [OF finished(1)] using finished.prems(1)
    by (simp add: arrive_Nil)
next
  case (aborted bound inserts st batch e)
  from aborted.prems(4) show ?case
    unfolding migrateLoop_abort [OF aborted(1-3)] by simp
next
  case (turn bound inserts st batch bulkOps)
  have ins: "inserts = []" "tl inserts = []"
    using turn.prems(1) by simp_all
  let ?store = "r_store st"
  let ?next = "nextRun st batch bulkOps (arrive inserts (r_store st))"
  have fb: "fetchBatch bound (r_lastId st) ?store = batch"
    using turn(1) ins by (simp add: arrive_Nil)
  have ids: "fst ` set bulkOps = d_id ` set batch"
    using buildOps_ids [OF turn(3)] by (metis set_map)
  have store': "r_store ?next = fst (bulkWrite bulkOps ?store)"
    using ins by (simp add: nextRun_simps arrive_Nil)
  have dist: "distinct (map d_id (r_store ?next))"
    using turn.prems(2) by (simp only: store' bulkWrite_ids)
  have inv: "\<forall>d \<in> set (r_store ?next). d_search d = None \<and> d_id d \<le> bound \<longrightarrow>
           matchesQuery bound (r_lastId ?next) d"
  proof (intro ballI impI)
    fix d assume d: "d \<in> set (r_store ?next)" "d_search d = None \<and> d_id d \<le> bound"
    from d(1) have dw: "d \<in> set (fst (bulkWrite bulkOps ?store))"
      by (simp only: store')
    with d(2) have old: "d \<in> set ?store"
      using bulkWrite_None_member by blast
    with turn.prems(3) d(2) have mq: "matchesQuery bound (r_lastId st) d" by blast
    have "d_id d \<notin> fst ` set bulkOps"
    proof
      assume "d_id d \<in> fst ` set bulkOps"
      then have "d_search d \<noteq> None"
        using bulkWrite_hit [OF turn.prems(2) _ dw] by blast
      with d(2) show False by simp
    qed
    then have "d_id d \<notin> d_id ` set batch"
      unfolding ids by assumption
    with fb turn(2) old mq have "d_id (last batch) < d_id d"
      by (rule beyond_batch)
    with d(2) show "matchesQuery bound (r_lastId ?next) d"
      by (simp add: matchesQuery_def nextRun_simps)
  qed
  have ab: "r_aborted (migrateLoop bound (tl inserts) ?next) = None"
    using turn.prems(4) by (simp only: migrateLoop_step [OF turn(1-3)])
  show ?case
    using turn.IH [OF ins(2) dist inv ab] by (simp only: migrateLoop_step [OF turn(1-3)])
qed

lemma addSearchFields_complete:
  assumes "distinct (map d_id store)" "r_aborted (addSearchFields [] store) = None"
  shows "\<forall>d \<in> set (r_store (addSearchFields [] store)). d_search d \<noteq> None"
proof (cases "maxIdAtStart store")
  case None
  then have "store = []" by (simp add: maxIdAtStart_None)
  with None show ?thesis
    by (simp add: addSearchFields_def initialRun_def)
next
  case (Some bound)
  have low: "\<forall>d \<in> set store. d_id d \<le> bound"
    using Some maxIdAtStart_greatest by blast
  show ?thesis
  proof (cases "length (filter (matchesQuery bound None) store) = 0")
    case True
    then have r: "addSearchFields [] store = initialRun store"
      using Some by (simp add: addSearchFields_def)
    from True have none: "filter (matchesQuery bound None) store = []" by simp
    have "\<forall>d \<in> set store. d_search d \<noteq> None"
    proof
      fix d assume d: "d \<in> set store"
      show "d_search d \<noteq> None"
      proof
        assume "d_search d = None"
        with low d have "matchesQuery bound None d"
          by (simp add: matchesQuery_def)
        with d have "d \<in> set (filter (matchesQuery bound None) store)" by simp
        with none show False by simp
      qed
    qed
    then show ?thesis
      by (simp add: r initialRun_def)
  next
    case False
    then have r: "addSearchFields [] store = migrateLoop bound [] (initialRun store)"
      using Some by (simp add: addSearchFields_def)
    have complete: "\<forall>d \<in> set (r_store (migrateLoop bound [] (initialRun store))).
           d_id d \<le> bound \<longrightarrow> d_search d \<noteq> None"
    proof (rule loop_complete [OF refl])
      show "distinct (map d_id (r_store (initialRun store)))"
        using assms(1) by (simp add: initialRun_def)
      show "\<forall>d \<in> set (r_store (initialRun store)). d_search d = None \<and> d_id d \<le> bound \<longrightarrow>
           matchesQuery bound (r_lastId (initialRun store)) d"
        by (simp add: initialRun_def matchesQuery_def)
      show "r_aborted (migrateLoop bound [] (initialRun store)) = None"
        using assms(2) by (simp only: r)
    qed
    have "map d_id (r_store (migrateLoop bound [] (initialRun store))) = map d_id store"
      using loop_ids [OF refl, of bound "initialRun store"] by (simp add: initialRun_def)
    then have "d_id ` set (r_store (migrateLoop bound [] (initialRun store))) = d_id ` set store"
      by (metis set_map)
    with low have "\<forall>d \<in> set (r_store (migrateLoop bound [] (initialRun store))). d_id d \<le> bound"
      by (metis (no_types, lifting) image_iff)
    with complete show ?thesis
      by (simp add: r)
  qed
qed

lemma addSearchFields_nothing_left:
  assumes "\<forall>d \<in> set store. d_search d \<noteq> None"
  shows "addSearchFields inserts store = initialRun store"
proof (cases "maxIdAtStart store")
  case None
  then show ?thesis by (simp add: addSearchFields_def)
next
  case (Some bound)
  have "filter (matchesQuery bound None) store = []"
    using assms by (simp add: filter_empty_conv matchesQuery_def)
  with Some show ?thesis
    by (simp add: addSearchFields_def)
qed

text \<open>
  Claim C8. With no other writer, identifiers that are unique, and a first run that
  completes (no exception ends it): after the first run every document has a search
  field, and a second run over the resulting collection fetches nothing, stages nothing,
  modifies no document and leaves the collection, and so every search field, exactly as
  the first run wrote it.
\<close>

theorem addSearchFields_idempotent:
  assumes "distinct (map d_id store)" "r_aborted (addSearchFields [] store) = None"
  shows "(\<forall>d \<in> set (r_store (addSearchFields [] store)). d_search d \<noteq> None)
    \<and> r_processedCount (addSearchFields [] (r_store (addSearchFields [] store))) = 0
    \<and> r_fetched (addSearchFields [] (r_store (addSearchFields [] store))) = []
    \<and> r_staged (addSearchFields [] (r_store (addSearchFields [] store))) = []
    \<and> r_aborted (addSearchFields [] (r_store (addSearchFields [] store))) = None
    \<and> r_store (addSearchFields [] (r_store (addSearchFields [] store))) =
        r_store (addSearchFields [] store)"
proof -
  have all: "\<forall>d \<in> set (r_store (addSearchFields [] store)). d_search d \<noteq> None"
    using assms by (rule addSearchFields_complete)
  then have "addSearchFields [] (r_store (addSearchFields [] store)) =
      initialRun (r_store (addSearchFields [] store))"
    by (rule addSearchFields_nothing_left)
  with all show ?thesis
    by (simp add: initialRun_def)
qed

theorem addSearchFields_idempotent_witness:
  "distinct (map d_id exampleStore)
   \<and> r_aborted (addSearchFields [] exampleStore) = None
   \<and> r_processedCount (addSearchFields [] exampleStore) = 2
   \<and> map d_search (r_store (addSearchFields [] exampleStore)) =
       [Some [(''subject'', SText ''third'')], Some [(''subject'', SText ''first'')],
        Some [(''subject'', SText ''second'')]]
   \<and> r_processedCount (addSearchFields [] (r_store (addSearchFields [] exampleStore))) = 0
   \<and> r_store (addSearchFields [] (r_store (addSearchFields [] exampleStore))) =
       r_store (addSearchFields [] exampleStore)"
proof -
  have d: "distinct (map d_id exampleStore)" by code_simp
  have a: "r_aborted (addSearchFields [] exampleStore) = None" by code_simp
  have p: "r_processedCount (addSearchFields [] exampleStore) = 2" by code_simp
  have v: "map d_search (r_store (addSearchFields [] exampleStore)) =
       [Some [(''subject'', SText ''third'')], Some [(''subject'', SText ''first'')],
        Some [(''subject'', SText ''second'')]]"
    by code_simp
  note t = addSearchFields_idempotent [OF d a]
  have z: "r_processedCount (addSearchFields [] (r_store (addSearchFields [] exampleStore))) = 0"
    by (rule t [THEN conjunct2, THEN conjunct1])
  have s: "r_store (addSearchFields [] (r_store (addSearchFields [] exampleStore))) =
       r_store (addSearchFields [] exampleStore)"
    by (rule t [THEN conjunct2, THEN conjunct2, THEN conjunct2, THEN conjunct2, THEN conjunct2])
  show ?thesis
    by (intro conjI) (rule d a p v z s)+
qed

end
